theory Spec2Isabelle
  imports Complex_Main
begin

section \<open>Values of the books service (app.js)\<close>

text \<open>
  The service keeps a collection of book records in one JSON file and serves it over HTTP.
  Its source is one file, \<^verbatim>\<open>app.js\<close>.  A book is the object literal
  \<^verbatim>\<open>{ id, title, author, available }\<close>.  The id is a JavaScript number, a double, that
  holds an integer, and the model keeps it as the integer it holds, an \<^typ>\<open>int\<close>.  Not every
  integer is held by a double: from \<open>2^53\<close> on only the even ones are, from \<open>2^54\<close> on only
  the multiples of 4, and so on (\<open>is_double\<close> below), so the arithmetic of the program on ids
  is not the arithmetic of \<^typ>\<open>int\<close> (\<open>js_plus\<close> below).  An integer that no double holds is
  the id of no record: \<^verbatim>\<open>JSON.parse\<close> reads a double, and the id that a handler computes is a
  double (\<open>is_double_newBook\<close> below).  Title and author are text.
\<close>

record book =
  book_id :: int
  title :: string
  author :: string
  available :: bool

text \<open>
  A JSON value, as a request body may carry it in the \<^verbatim>\<open>available\<close> field and as a file may
  hold it.
\<close>

datatype json =
  JNull
  | JBool bool
  | JNum rat
  | JStr string
  | JArr "json list"
  | JObj "(string \<times> json) list"

text \<open>
  What \<^verbatim>\<open>JSON.parse\<close> returns on the text of the file: an array of book records, or a JSON
  value that is not an array.  (An array whose elements are not book records is outside the
  model.)
\<close>

datatype jsvalue = Books "book list" | Other json

text \<open>
  The text of a file.  \<^verbatim>\<open>JSON.stringify\<close> and \<^verbatim>\<open>JSON.parse\<close> belong to the platform, so a text
  is kept as the value \<^verbatim>\<open>JSON.parse\<close> reads from it, or as text that \<^verbatim>\<open>JSON.parse\<close> rejects.
\<close>

datatype filetext = Json jsvalue | Garbage string

text \<open>The \<^verbatim>\<open>code\<close> of a failed file-system call, and the errors the program can throw.\<close>

datatype fs_code = ENOENT | EACCES | EIO | ENOSPC

datatype js_error = FsError fs_code | SyntaxError | TypeError

text \<open>The file-system calls of the program, as the trace records them.\<close>

datatype fs_call = ReadFile | WriteFile filetext | Rename

text \<open>
  The state a handler runs in: the two files (\<^verbatim>\<open>books.json\<close> and \<^verbatim>\<open>books.json.tmp\<close>), the
  settled promise held by the variable \<^verbatim>\<open>writeQueue\<close> (\<open>Inr ()\<close> fulfilled, \<open>Inl e\<close> rejected),
  the outcomes of the file-system calls still to come (\<open>None\<close>: the call succeeds,
  \<open>Some c\<close>: it fails with code \<open>c\<close>; past the end of the list every call succeeds), and the
  calls made so far.
\<close>

record world =
  books_file :: "filetext option"
  tmp_file :: "filetext option"
  writeQueue :: "js_error + unit"
  io :: "fs_code option list"
  trace :: "fs_call list"

definition SAMPLE_BOOKS :: "book list" where
  "SAMPLE_BOOKS =
     [\<lparr>book_id = 1, title = ''Atomic Habits'', author = ''James Clear'', available = True\<rparr>,
      \<lparr>book_id = 2, title = ''Deep Work'', author = ''Cal Newport'', available = False\<rparr>]"

text \<open>
  The state when the program starts (\<^verbatim>\<open>let writeQueue = Promise.resolve()\<close>), given what is on
  disk at \<^verbatim>\<open>books.json\<close> and the outcomes of the file-system calls to come.
\<close>

definition start :: "filetext option \<Rightarrow> fs_code option list \<Rightarrow> world" where
  "start f outcomes =
     \<lparr>books_file = f, tmp_file = None, writeQueue = Inr (), io = outcomes, trace = []\<rparr>"

section \<open>The platform: file system and JSON\<close>

text \<open>Every file-system call takes the next outcome of \<open>io\<close> and is recorded in \<open>trace\<close>.\<close>

definition fs_attempt :: "fs_call \<Rightarrow> world \<Rightarrow> fs_code option \<times> world" where
  "fs_attempt c w =
     (case io w of
        [] \<Rightarrow> (None, w\<lparr>trace := trace w @ [c]\<rparr>)
      | r # rs \<Rightarrow> (r, w\<lparr>io := rs, trace := trace w @ [c]\<rparr>))"

definition fs_readFile :: "world \<Rightarrow> (js_error + filetext) \<times> world" where
  "fs_readFile w =
     (case fs_attempt ReadFile w of
        (Some c, w1) \<Rightarrow> (Inl (FsError c), w1)
      | (None, w1) \<Rightarrow>
          (case books_file w1 of
             None \<Rightarrow> (Inl (FsError ENOENT), w1)
           | Some t \<Rightarrow> (Inr t, w1)))"

text \<open>A failed \<^verbatim>\<open>writeFile\<close> is taken to fail before it writes.\<close>

definition fs_writeFile :: "filetext \<Rightarrow> world \<Rightarrow> (js_error + unit) \<times> world" where
  "fs_writeFile data w =
     (case fs_attempt (WriteFile data) w of
        (Some c, w1) \<Rightarrow> (Inl (FsError c), w1)
      | (None, w1) \<Rightarrow> (Inr (), w1\<lparr>tmp_file := Some data\<rparr>))"

definition fs_rename :: "world \<Rightarrow> (js_error + unit) \<times> world" where
  "fs_rename w =
     (case fs_attempt Rename w of
        (Some c, w1) \<Rightarrow> (Inl (FsError c), w1)
      | (None, w1) \<Rightarrow>
          (case tmp_file w1 of
             None \<Rightarrow> (Inl (FsError ENOENT), w1)
           | Some t \<Rightarrow> (Inr (), w1\<lparr>books_file := Some t, tmp_file := None\<rparr>)))"

definition JSON_parse :: "filetext \<Rightarrow> js_error + jsvalue" where
  "JSON_parse raw = (case raw of Json v \<Rightarrow> Inr v | Garbage s \<Rightarrow> Inl SyntaxError)"

definition JSON_stringify :: "book list \<Rightarrow> filetext" where
  "JSON_stringify books = Json (Books books)"

section \<open>The platform: numbers\<close>

text \<open>
  A double has a significand of 53 bits.  For a magnitude \<open>a\<close>, \<open>exponent a\<close> is the number of
  low bits a double of that magnitude cannot hold: 0 below \<open>2^53\<close>, 1 below \<open>2^54\<close>, and so on.
\<close>

function exponent :: "int \<Rightarrow> nat" where
  "exponent a = (if a < 2 ^ 53 then 0 else Suc (exponent (a div 2)))"
  by pat_completeness auto
termination
  by (relation "measure nat") simp_all

declare exponent.simps [simp del]

text \<open>
  The double nearest to an integer, as the integer it holds (IEEE 754, round to nearest, ties to
  the even significand): \<open>q\<close> is the significand cut to 53 bits and \<open>r\<close> the bits cut off.  The
  range of the exponent of a double is not modelled; the integers here stay far below
  \<open>2^1024\<close>.
\<close>

definition double_of :: "int \<Rightarrow> int" where
  "double_of x =
     (let a = \<bar>x\<bar>;
          e = exponent a;
          q = a div 2 ^ e;
          r = a mod 2 ^ e;
          q' = (if 2 ^ e < 2 * r \<or> (2 * r = 2 ^ e \<and> odd q) then q + 1 else q)
      in sgn x * (q' * 2 ^ e))"

text \<open>The integers that a double holds.\<close>

definition is_double :: "int \<Rightarrow> bool" where
  "is_double x = (double_of x = x)"

text \<open>
  \<^verbatim>\<open>a + b\<close> on two doubles that hold integers: the exact sum, rounded to the nearest double.
  \<^verbatim>\<open>Math.max\<close> and the comparisons of doubles are exact, so they are \<open>max\<close>, \<open><\<close> and \<open>=\<close> of
  \<^typ>\<open>int\<close>.
\<close>

definition js_plus :: "int \<Rightarrow> int \<Rightarrow> int" where
  "js_plus a b = double_of (a + b)"

section \<open>The store: enqueueWrite, writeBooksFile, readBooksFile\<close>

text \<open>
  \<^verbatim>\<open>writeQueue = writeQueue.then(() => fn()).catch(() => fn()); return writeQueue;\<close>

  \<open>p1\<close> is the promise of \<^verbatim>\<open>then\<close>: it calls \<open>fn\<close> when the queue is fulfilled and passes a
  rejection on.  \<open>p2\<close> is the promise of \<^verbatim>\<open>catch\<close>: it passes a fulfilment on and calls \<open>fn\<close>
  when \<open>p1\<close> is rejected.  Here a handler runs to its end before the next one starts.
\<close>

definition enqueueWrite ::
  "(world \<Rightarrow> (js_error + unit) \<times> world) \<Rightarrow> world \<Rightarrow> (js_error + unit) \<times> world" where
  "enqueueWrite fn w =
     (let (p1, w1) = (case writeQueue w of Inr u \<Rightarrow> fn w | Inl e \<Rightarrow> (Inl e, w));
          (p2, w2) = (case p1 of Inr u \<Rightarrow> (Inr u, w1) | Inl e \<Rightarrow> fn w1)
      in (p2, w2\<lparr>writeQueue := p2\<rparr>))"

text \<open>The arrow function that \<^verbatim>\<open>writeBooksFile\<close> enqueues: write the temporary file, then rename.\<close>

definition write_task :: "book list \<Rightarrow> world \<Rightarrow> (js_error + unit) \<times> world" where
  "write_task books w =
     (let data = JSON_stringify books in
      case fs_writeFile data w of
        (Inl e, w1) \<Rightarrow> (Inl e, w1)
      | (Inr u, w1) \<Rightarrow> fs_rename w1)"

definition writeBooksFile :: "book list \<Rightarrow> world \<Rightarrow> (js_error + unit) \<times> world" where
  "writeBooksFile books w = enqueueWrite (write_task books) w"

text \<open>The \<^verbatim>\<open>catch\<close> block of \<^verbatim>\<open>readBooksFile\<close>.\<close>

definition read_catch :: "js_error \<Rightarrow> world \<Rightarrow> (js_error + jsvalue) \<times> world" where
  "read_catch err w =
     (if err = FsError ENOENT then
        (case writeBooksFile SAMPLE_BOOKS w of
           (Inl e, w1) \<Rightarrow> (Inl e, w1)
         | (Inr u, w1) \<Rightarrow> (Inr (Books SAMPLE_BOOKS), w1))
      else (Inl err, w))"

definition readBooksFile :: "world \<Rightarrow> (js_error + jsvalue) \<times> world" where
  "readBooksFile w =
     (case fs_readFile w of
        (Inl err, w1) \<Rightarrow> read_catch err w1
      | (Inr raw, w1) \<Rightarrow>
          (case JSON_parse raw of
             Inl err \<Rightarrow> read_catch err w1
           | Inr v \<Rightarrow> (Inr v, w1)))"

section \<open>The service: the handlers\<close>

datatype body =
  HtmlBody
  | ErrorBody string
  | BooksBody "book list"
  | JsonBody json
  | BookBody book
  | DeletedBody book

record response =
  status :: nat
  body :: body

text \<open>
  The body of a POST or PUT request, \<^verbatim>\<open>const { title, author, available } = req.body\<close>;
  \<open>None\<close> is \<^verbatim>\<open>undefined\<close>.  A title and an author are taken to be text when they are there,
  as the data model has them (the code does not look at their type); \<^verbatim>\<open>available\<close> is any JSON
  value, since the code looks at its type.
\<close>

record payload =
  p_title :: "string option"
  p_author :: "string option"
  p_available :: "json option"

text \<open>The centralized error handler.\<close>

definition error_handler :: "js_error \<Rightarrow> response" where
  "error_handler err =
     (if err = FsError ENOENT then
        \<lparr>status = 500, body = ErrorBody ''Books file missing and could not be created''\<rparr>
      else if err = SyntaxError then
        \<lparr>status = 500, body = ErrorBody ''Books file contains invalid JSON''\<rparr>
      else \<lparr>status = 500, body = ErrorBody ''Internal server error''\<rparr>)"

text \<open>\<^verbatim>\<open>!title\<close> on a text or \<^verbatim>\<open>undefined\<close>.\<close>

definition js_not :: "string option \<Rightarrow> bool" where
  "js_not s = (case s of None \<Rightarrow> True | Some t \<Rightarrow> t = [])"

text \<open>\<^verbatim>\<open>Boolean(v)\<close> on a JSON value.\<close>

definition js_Boolean :: "json \<Rightarrow> bool" where
  "js_Boolean v =
     (case v of
        JNull \<Rightarrow> False
      | JBool b \<Rightarrow> b
      | JNum r \<Rightarrow> r \<noteq> 0
      | JStr s \<Rightarrow> s \<noteq> []
      | JArr xs \<Rightarrow> True
      | JObj kvs \<Rightarrow> True)"

text \<open>\<^verbatim>\<open>typeof available === 'boolean' ? available : true\<close>\<close>

definition available_or_true :: "json option \<Rightarrow> bool" where
  "available_or_true a = (case a of Some (JBool b) \<Rightarrow> b | _ \<Rightarrow> True)"

text \<open>
  \<^verbatim>\<open>books.reduce((m, b) => Math.max(m, b.id || 0), 0)\<close>: the greatest of 0 and the ids, one
  of the doubles it is given.
\<close>

definition maxId :: "book list \<Rightarrow> int" where
  "maxId books = foldl (\<lambda>m b. max m (if book_id b = 0 then 0 else book_id b)) 0 books"

text \<open>
  The object literal \<^verbatim>\<open>newBook\<close> of the POST handler.  It is built only after \<^verbatim>\<open>!title\<close> and
  \<^verbatim>\<open>!author\<close> were found false, so both fields are there.  Its id is \<^verbatim>\<open>maxId + 1\<close>, a sum of
  doubles.
\<close>

definition newBook :: "payload \<Rightarrow> book list \<Rightarrow> book" where
  "newBook req books =
     \<lparr>book_id = js_plus (maxId books) 1,
      title = (case p_title req of Some t \<Rightarrow> t | None \<Rightarrow> []),
      author = (case p_author req of Some a \<Rightarrow> a | None \<Rightarrow> []),
      available = available_or_true (p_available req)\<rparr>"

definition get_books :: "world \<Rightarrow> response \<times> world" where
  "get_books w =
     (case readBooksFile w of
        (Inl err, w1) \<Rightarrow> (error_handler err, w1)
      | (Inr (Books books), w1) \<Rightarrow> (\<lparr>status = 200, body = BooksBody books\<rparr>, w1)
      | (Inr (Other v), w1) \<Rightarrow> (\<lparr>status = 200, body = JsonBody v\<rparr>, w1))"

text \<open>A value that is not an array has no \<^verbatim>\<open>filter\<close>, \<^verbatim>\<open>reduce\<close> or \<^verbatim>\<open>findIndex\<close>: a TypeError.\<close>

definition get_books_available :: "world \<Rightarrow> response \<times> world" where
  "get_books_available w =
     (case readBooksFile w of
        (Inl err, w1) \<Rightarrow> (error_handler err, w1)
      | (Inr (Books books), w1) \<Rightarrow>
          (\<lparr>status = 200, body = BooksBody (filter (\<lambda>b. available b = True) books)\<rparr>, w1)
      | (Inr (Other v), w1) \<Rightarrow> (error_handler TypeError, w1))"

definition post_books :: "payload \<Rightarrow> world \<Rightarrow> response \<times> world" where
  "post_books req w =
     (if js_not (p_title req) \<or> js_not (p_author req) then
        (\<lparr>status = 400, body = ErrorBody ''title and author are required''\<rparr>, w)
      else
        (case readBooksFile w of
           (Inl err, w1) \<Rightarrow> (error_handler err, w1)
         | (Inr (Other v), w1) \<Rightarrow> (error_handler TypeError, w1)
         | (Inr (Books books), w1) \<Rightarrow>
             (let book = newBook req books;
                  books' = books @ [book]
              in case writeBooksFile books' w1 of
                   (Inl err, w2) \<Rightarrow> (error_handler err, w2)
                 | (Inr u, w2) \<Rightarrow> (\<lparr>status = 201, body = BookBody book\<rparr>, w2))))"

text \<open>
  The value of \<^verbatim>\<open>Number(req.params.id)\<close>.  \<^verbatim>\<open>Number\<close> belongs to the platform: it reads
  \<^verbatim>\<open>'abc'\<close> as \<open>NaN\<close> and \<^verbatim>\<open>'-1'\<close> as \<open>Finite (-1)\<close>.
\<close>

datatype jsnum = NaN | PosInfinity | NegInfinity | Finite rat

definition Number_isInteger :: "jsnum \<Rightarrow> bool" where
  "Number_isInteger n = (case n of Finite r \<Rightarrow> of_int \<lfloor>r\<rfloor> = r | _ \<Rightarrow> False)"

text \<open>\<^verbatim>\<open>id <= 0\<close>\<close>

definition le_zero :: "jsnum \<Rightarrow> bool" where
  "le_zero n = (case n of Finite r \<Rightarrow> r \<le> 0 | NegInfinity \<Rightarrow> True | _ \<Rightarrow> False)"

text \<open>\<^verbatim>\<open>b.id === id\<close>\<close>

definition id_eq :: "jsnum \<Rightarrow> book \<Rightarrow> bool" where
  "id_eq n b = (Finite (of_int (book_id b)) = n)"

text \<open>\<^verbatim>\<open>findIndex\<close>: the first index whose element satisfies \<open>P\<close>; \<open>None\<close> is \<open>-1\<close>.\<close>

fun findIndex :: "('a \<Rightarrow> bool) \<Rightarrow> 'a list \<Rightarrow> nat option" where
  "findIndex P [] = None"
| "findIndex P (x # xs) =
     (if P x then Some 0 else map_option Suc (findIndex P xs))"

text \<open>The three assignments of the PUT handler.\<close>

definition apply_update :: "payload \<Rightarrow> book \<Rightarrow> book" where
  "apply_update req book =
     (let book1 = (case p_title req of None \<Rightarrow> book | Some t \<Rightarrow> book\<lparr>title := t\<rparr>);
          book2 = (case p_author req of None \<Rightarrow> book1 | Some a \<Rightarrow> book1\<lparr>author := a\<rparr>);
          book3 = (case p_available req of None \<Rightarrow> book2
                   | Some v \<Rightarrow> book2\<lparr>available := js_Boolean v\<rparr>)
      in book3)"

definition put_book :: "jsnum \<Rightarrow> payload \<Rightarrow> world \<Rightarrow> response \<times> world" where
  "put_book n req w =
     (if \<not> Number_isInteger n \<or> le_zero n then
        (\<lparr>status = 400, body = ErrorBody ''Invalid id''\<rparr>, w)
      else if p_title req = None \<and> p_author req = None \<and> p_available req = None then
        (\<lparr>status = 400,
          body = ErrorBody ''Provide at least one of title, author, available''\<rparr>, w)
      else
        (case readBooksFile w of
           (Inl err, w1) \<Rightarrow> (error_handler err, w1)
         | (Inr (Other v), w1) \<Rightarrow> (error_handler TypeError, w1)
         | (Inr (Books books), w1) \<Rightarrow>
             (case findIndex (id_eq n) books of
                None \<Rightarrow> (\<lparr>status = 404, body = ErrorBody ''Book not found''\<rparr>, w1)
              | Some idx \<Rightarrow>
                  (let book = apply_update req (books ! idx);
                       books' = books[idx := book]
                   in case writeBooksFile books' w1 of
                        (Inl err, w2) \<Rightarrow> (error_handler err, w2)
                      | (Inr u, w2) \<Rightarrow> (\<lparr>status = 200, body = BookBody book\<rparr>, w2)))))"

text \<open>\<^verbatim>\<open>books.splice(idx, 1)\<close>: what is left of the array.\<close>

definition splice1 :: "nat \<Rightarrow> 'a list \<Rightarrow> 'a list" where
  "splice1 idx xs = take idx xs @ drop (Suc idx) xs"

definition delete_book :: "jsnum \<Rightarrow> world \<Rightarrow> response \<times> world" where
  "delete_book n w =
     (if \<not> Number_isInteger n \<or> le_zero n then
        (\<lparr>status = 400, body = ErrorBody ''Invalid id''\<rparr>, w)
      else
        (case readBooksFile w of
           (Inl err, w1) \<Rightarrow> (error_handler err, w1)
         | (Inr (Other v), w1) \<Rightarrow> (error_handler TypeError, w1)
         | (Inr (Books books), w1) \<Rightarrow>
             (case findIndex (id_eq n) books of
                None \<Rightarrow> (\<lparr>status = 404, body = ErrorBody ''Book not found''\<rparr>, w1)
              | Some idx \<Rightarrow>
                  (let removed = books ! idx;
                       books' = splice1 idx books
                   in case writeBooksFile books' w1 of
                        (Inl err, w2) \<Rightarrow> (error_handler err, w2)
                      | (Inr u, w2) \<Rightarrow> (\<lparr>status = 200, body = DeletedBody removed\<rparr>, w2)))))"

text \<open>
  The routes of the application, and the dispatch of a request to its handler.  \<open>GetRoot\<close> is
  \<^verbatim>\<open>GET /\<close>, which answers with a page that lists the routes; \<open>Unmatched\<close> is any other route.
\<close>

datatype request =
  GetRoot
  | GetBooks
  | GetBooksAvailable
  | PostBooks payload
  | PutBook jsnum payload
  | DeleteBook jsnum
  | Unmatched

definition app :: "request \<Rightarrow> world \<Rightarrow> response \<times> world" where
  "app r w =
     (case r of
        GetRoot \<Rightarrow> (\<lparr>status = 200, body = HtmlBody\<rparr>, w)
      | GetBooks \<Rightarrow> get_books w
      | GetBooksAvailable \<Rightarrow> get_books_available w
      | PostBooks req \<Rightarrow> post_books req w
      | PutBook n req \<Rightarrow> put_book n req w
      | DeleteBook n \<Rightarrow> delete_book n w
      | Unmatched \<Rightarrow> (\<lparr>status = 404, body = ErrorBody ''Not found''\<rparr>, w))"

text \<open>Requests served one after the other, each to its end; the responses in order.\<close>

fun serve :: "request list \<Rightarrow> world \<Rightarrow> response list \<times> world" where
  "serve [] w = ([], w)"
| "serve (r # rs) w =
     (case app r w of (res, w1) \<Rightarrow> (case serve rs w1 of (ress, w2) \<Rightarrow> (res # ress, w2)))"

section \<open>Object identity: the store with references\<close>

text \<open>
  The handlers change the objects they loaded in place (\<^verbatim>\<open>book.title = title\<close>,
  \<^verbatim>\<open>books.push(newBook)\<close>).  Above, an array of records is a value, which is sound as long as
  \<^verbatim>\<open>readBooksFile\<close> hands out objects nobody else holds.  To state that, objects get addresses:
  a heap of record objects and of array objects, an array holding the addresses of its
  records.  Allocation appends, so a new address is the length of the heap.
\<close>

record heap =
  recs :: "book list"
  arrs :: "nat list list"

text \<open>
  The constant \<^verbatim>\<open>SAMPLE_BOOKS\<close> is the array at address 0, and the heap once the module is
  loaded holds that array and its two records.
\<close>

definition SAMPLE_BOOKS_ref :: nat where
  "SAMPLE_BOOKS_ref = 0"

definition module_heap :: heap where
  "module_heap = \<lparr>recs = SAMPLE_BOOKS, arrs = [[0, 1]]\<rparr>"

text \<open>The records an array holds, read through the heap (what \<^verbatim>\<open>JSON.stringify\<close> sees).\<close>

definition array_value :: "heap \<Rightarrow> nat \<Rightarrow> book list" where
  "array_value h a = map (\<lambda>r. recs h ! r) (arrs h ! a)"

text \<open>
  A new array of new record objects with the values \<open>bs\<close>: what \<^verbatim>\<open>JSON.parse\<close> builds from the
  text of an array, and what \<^verbatim>\<open>SAMPLE_BOOKS.map(b => ({ ...b }))\<close> builds from the values of the
  sample records.
\<close>

definition new_array :: "book list \<Rightarrow> heap \<Rightarrow> nat \<times> heap" where
  "new_array bs h =
     (length (arrs h),
      \<lparr>recs = recs h @ bs,
       arrs = arrs h @ [[length (recs h)..<length (recs h) + length bs]]\<rparr>)"

text \<open>What \<^verbatim>\<open>readBooksFile\<close> returns: a reference to an array, or a value that is no array.\<close>

datatype loaded = Ref nat | Val json

text \<open>
  \<^verbatim>\<open>writeBooksFile(books)\<close> on a reference: the enqueued function reads the array through the
  heap, which no one changes while the write runs.
\<close>

definition writeBooksFile_ref :: "nat \<Rightarrow> heap \<Rightarrow> world \<Rightarrow> (js_error + unit) \<times> world" where
  "writeBooksFile_ref a h w = enqueueWrite (write_task (array_value h a)) w"

definition read_catch_ref ::
  "js_error \<Rightarrow> heap \<Rightarrow> world \<Rightarrow> (js_error + loaded) \<times> heap \<times> world" where
  "read_catch_ref err h w =
     (if err = FsError ENOENT then
        (case writeBooksFile_ref SAMPLE_BOOKS_ref h w of
           (Inl e, w1) \<Rightarrow> (Inl e, h, w1)
         | (Inr u, w1) \<Rightarrow>
             (case new_array (array_value h SAMPLE_BOOKS_ref) h of
                (a, h1) \<Rightarrow> (Inr (Ref a), h1, w1)))
      else (Inl err, h, w))"

definition readBooksFile_ref :: "heap \<Rightarrow> world \<Rightarrow> (js_error + loaded) \<times> heap \<times> world" where
  "readBooksFile_ref h w =
     (case fs_readFile w of
        (Inl err, w1) \<Rightarrow> read_catch_ref err h w1
      | (Inr raw, w1) \<Rightarrow>
          (case JSON_parse raw of
             Inl err \<Rightarrow> read_catch_ref err h w1
           | Inr (Books bs) \<Rightarrow> (case new_array bs h of (a, h1) \<Rightarrow> (Inr (Ref a), h1, w1))
           | Inr (Other v) \<Rightarrow> (Inr (Val v), h, w1)))"

text \<open>
  A heap with no dangling address, in which the constant is allocated; and what a caller may
  do to the heap with the array at address \<open>a\<close>: change that array and the records it holds,
  and allocate.
\<close>

definition heap_ok :: "heap \<Rightarrow> bool" where
  "heap_ok h =
     (SAMPLE_BOOKS_ref < length (arrs h)
      \<and> list_all (list_all (\<lambda>r. r < length (recs h))) (arrs h))"

definition touches_only :: "nat \<Rightarrow> heap \<Rightarrow> heap \<Rightarrow> bool" where
  "touches_only a h h' =
     (length (recs h) \<le> length (recs h') \<and> length (arrs h) \<le> length (arrs h')
      \<and> (\<forall>r\<in>{..<length (recs h)}. r \<in> set (arrs h ! a) \<or> recs h' ! r = recs h ! r)
      \<and> (\<forall>b\<in>{..<length (arrs h)}. b = a \<or> arrs h' ! b = arrs h ! b))"

text \<open>The value behind what was loaded, to compare both versions of \<^verbatim>\<open>readBooksFile\<close>.\<close>

definition value_of :: "heap \<Rightarrow> loaded \<Rightarrow> jsvalue" where
  "value_of h l = (case l of Ref a \<Rightarrow> Books (array_value h a) | Val v \<Rightarrow> Other v)"

section \<open>The write queue as a chain of promises\<close>

text \<open>
  Handlers run concurrently: between two steps of one write, other handlers may call
  \<^verbatim>\<open>enqueueWrite\<close> and other promises may settle.  The machine below keeps every promise that
  \<^verbatim>\<open>enqueueWrite\<close> makes and takes one step at a time, in any order the events come.

  A promise made by \<^verbatim>\<open>then\<close> or \<^verbatim>\<open>catch\<close> is pending until the promise it was made from
  settles; then it either calls \<open>fn\<close> and is running (first \<^verbatim>\<open>fs.writeFile\<close>, then
  \<^verbatim>\<open>fs.rename\<close>) until \<open>fn\<close> ends, or it passes the settlement on.
\<close>

datatype stage = Writing | Renaming

datatype pstate = Pending | Running stage | Fulfilled | Rejected

text \<open>How a promise was made: \<^verbatim>\<open>Promise.resolve()\<close>, \<^verbatim>\<open>p.then(() => fn())\<close> or
  \<^verbatim>\<open>p.catch(() => fn())\<close>, with the index of \<open>p\<close>.\<close>

datatype origin = Resolved | ThenOf nat | CatchOf nat

text \<open>
  A promise: how it was made, the number of the call of \<^verbatim>\<open>enqueueWrite\<close> that made it, the
  array that \<open>fn\<close> holds, and its state.
\<close>

record promise =
  origin :: origin
  job :: nat
  closure_books :: "book list"
  pstate :: pstate

text \<open>The journal: \<open>Began j\<close> when \<open>fn\<close> of call \<open>j\<close> is called (it calls \<^verbatim>\<open>fs.writeFile\<close> at
  once), \<open>Committed j\<close> when its \<^verbatim>\<open>fs.rename\<close> has replaced the file.\<close>

datatype entry = Began nat | Committed nat

text \<open>
  The machine: the promises made so far, the variable \<^verbatim>\<open>writeQueue\<close> (the index of a
  promise), the number of calls of \<^verbatim>\<open>enqueueWrite\<close>, the two files and the journal.
\<close>

record machine =
  promises :: "promise list"
  queue :: nat
  jobs :: nat
  disk :: "filetext option"
  tmp :: "filetext option"
  journal :: "entry list"

text \<open>
  The events: a handler calls \<^verbatim>\<open>writeBooksFile(books)\<close>; the reaction of promise \<open>k\<close> runs; the
  \<^verbatim>\<open>fs.writeFile\<close> or the \<^verbatim>\<open>fs.rename\<close> of the running promise \<open>k\<close> ends, with or without an
  error.
\<close>

datatype event =
  Enqueue "book list"
  | Settle nat
  | WriteFileDone nat "fs_code option"
  | RenameDone nat "fs_code option"

text \<open>\<^verbatim>\<open>let writeQueue = Promise.resolve()\<close>\<close>

definition machine0 :: "filetext option \<Rightarrow> machine" where
  "machine0 f =
     \<lparr>promises = [\<lparr>origin = Resolved, job = 0, closure_books = [], pstate = Fulfilled\<rparr>],
      queue = 0, jobs = 0, disk = f, tmp = None, journal = []\<rparr>"

text \<open>
  \<^verbatim>\<open>writeQueue = writeQueue.then(() => fn()).catch(() => fn())\<close>: two new promises, the first
  made from the queue, the second from the first; the second is the new queue.
\<close>

definition enqueue :: "book list \<Rightarrow> machine \<Rightarrow> machine" where
  "enqueue bs m =
     (let p1 = length (promises m);
          p2 = Suc p1
      in m\<lparr>promises := promises m @
              [\<lparr>origin = ThenOf (queue m), job = jobs m, closure_books = bs, pstate = Pending\<rparr>,
               \<lparr>origin = CatchOf p1, job = jobs m, closure_books = bs, pstate = Pending\<rparr>],
           queue := p2,
           jobs := Suc (jobs m)\<rparr>)"

text \<open>The state of promise \<open>k\<close>, and the machine with that state changed.\<close>

definition state_of :: "machine \<Rightarrow> nat \<Rightarrow> pstate" where
  "state_of m k = pstate (promises m ! k)"

definition set_state :: "nat \<Rightarrow> pstate \<Rightarrow> machine \<Rightarrow> machine" where
  "set_state k s m = m\<lparr>promises := (promises m)[k := (promises m ! k)\<lparr>pstate := s\<rparr>]\<rparr>"

text \<open>Promise \<open>k\<close> calls \<open>fn\<close>, which stringifies the array and calls \<^verbatim>\<open>fs.writeFile\<close>.\<close>

definition call_fn :: "nat \<Rightarrow> machine \<Rightarrow> machine" where
  "call_fn k m =
     (set_state k (Running Writing) m)\<lparr>journal := journal m @ [Began (job (promises m ! k))]\<rparr>"

text \<open>
  The reaction of a pending promise once the promise it was made from is settled: \<^verbatim>\<open>then\<close> calls
  \<open>fn\<close> on a fulfilment and passes a rejection on, \<^verbatim>\<open>catch\<close> passes a fulfilment on and calls
  \<open>fn\<close> on a rejection.
\<close>

definition settle :: "nat \<Rightarrow> machine \<Rightarrow> machine option" where
  "settle k m =
     (if k < length (promises m) \<and> state_of m k = Pending then
        (case origin (promises m ! k) of
           Resolved \<Rightarrow> None
         | ThenOf p \<Rightarrow>
             (if p < length (promises m) then
                (case state_of m p of
                   Fulfilled \<Rightarrow> Some (call_fn k m)
                 | Rejected \<Rightarrow> Some (set_state k Rejected m)
                 | _ \<Rightarrow> None)
              else None)
         | CatchOf p \<Rightarrow>
             (if p < length (promises m) then
                (case state_of m p of
                   Fulfilled \<Rightarrow> Some (set_state k Fulfilled m)
                 | Rejected \<Rightarrow> Some (call_fn k m)
                 | _ \<Rightarrow> None)
              else None))
      else None)"

text \<open>
  The end of \<^verbatim>\<open>await fs.writeFile(tmp, data, 'utf8')\<close>: on an error \<open>fn\<close> throws and the promise
  is rejected; otherwise the temporary file holds the data and \<open>fn\<close> calls \<^verbatim>\<open>fs.rename\<close>.
  The end of \<^verbatim>\<open>await fs.rename(tmp, BOOKS_FILE)\<close>: on an error, or with no temporary file to
  rename, the promise is rejected; otherwise the file is replaced and the promise is fulfilled.
\<close>

definition writeFile_done :: "nat \<Rightarrow> fs_code option \<Rightarrow> machine \<Rightarrow> machine option" where
  "writeFile_done k r m =
     (if k < length (promises m) \<and> state_of m k = Running Writing then
        (case r of
           Some c \<Rightarrow> Some (set_state k Rejected m)
         | None \<Rightarrow>
             Some (set_state k (Running Renaming)
                     (m\<lparr>tmp := Some (JSON_stringify (closure_books (promises m ! k)))\<rparr>)))
      else None)"

definition rename_done :: "nat \<Rightarrow> fs_code option \<Rightarrow> machine \<Rightarrow> machine option" where
  "rename_done k r m =
     (if k < length (promises m) \<and> state_of m k = Running Renaming then
        (case r of
           Some c \<Rightarrow> Some (set_state k Rejected m)
         | None \<Rightarrow>
             (case tmp m of
                None \<Rightarrow> Some (set_state k Rejected m)
              | Some data \<Rightarrow>
                  Some ((set_state k Fulfilled m)
                          \<lparr>disk := Some data, tmp := None,
                           journal := journal m @ [Committed (job (promises m ! k))]\<rparr>)))
      else None)"

definition step :: "event \<Rightarrow> machine \<Rightarrow> machine option" where
  "step e m =
     (case e of
        Enqueue bs \<Rightarrow> Some (enqueue bs m)
      | Settle k \<Rightarrow> settle k m
      | WriteFileDone k r \<Rightarrow> writeFile_done k r m
      | RenameDone k r \<Rightarrow> rename_done k r m)"

fun run :: "event list \<Rightarrow> machine \<Rightarrow> machine option" where
  "run [] m = Some m"
| "run (e # es) m = (case step e m of None \<Rightarrow> None | Some m1 \<Rightarrow> run es m1)"

text \<open>
  What the statements below are made of: the events that are not a new call, the two kinds of
  state, the call of a journal entry, the calls that committed, and the work a machine has
  left (which every event other than a new call makes smaller).
\<close>

definition internal :: "event \<Rightarrow> bool" where
  "internal e = (case e of Enqueue bs \<Rightarrow> False | _ \<Rightarrow> True)"

definition running :: "pstate \<Rightarrow> bool" where
  "running s = (case s of Running g \<Rightarrow> True | _ \<Rightarrow> False)"

definition settled :: "pstate \<Rightarrow> bool" where
  "settled s = (s = Fulfilled \<or> s = Rejected)"

definition entry_job :: "entry \<Rightarrow> nat" where
  "entry_job e = (case e of Began j \<Rightarrow> j | Committed j \<Rightarrow> j)"

definition commits :: "entry list \<Rightarrow> nat list" where
  "commits es = concat (map (\<lambda>e. case e of Committed j \<Rightarrow> [j] | Began j \<Rightarrow> []) es)"

definition weight :: "pstate \<Rightarrow> nat" where
  "weight s = (case s of Pending \<Rightarrow> 3 | Running Writing \<Rightarrow> 2 | Running Renaming \<Rightarrow> 1 | _ \<Rightarrow> 0)"

definition work_left :: "machine \<Rightarrow> nat" where
  "work_left m = sum_list (map (\<lambda>p. weight (pstate p)) (promises m))"

definition submitted :: "event list \<Rightarrow> book list list" where
  "submitted es = concat (map (\<lambda>e. case e of Enqueue bs \<Rightarrow> [bs] | _ \<Rightarrow> []) es)"

text \<open>
  The invariant of the machine.  \<open>shape\<close>: call \<open>j\<close> made the promises \<open>2j + 1\<close> (from the
  promise before it, by \<^verbatim>\<open>then\<close>) and \<open>2j + 2\<close> (by \<^verbatim>\<open>catch\<close>), and the queue is the last
  promise.  \<open>in_order\<close>: every promise before one that is not pending is settled.
  \<open>reacted\<close>: a promise that is not pending did what its reaction says.  \<open>journal_ok\<close>: the
  journal is in the order of the calls, each call committed at most once, and its entries
  belong to promises that are not pending.
\<close>

definition shape :: "machine \<Rightarrow> bool" where
  "shape m =
     (length (promises m) = Suc (2 * jobs m) \<and> queue m = 2 * jobs m
      \<and> origin (promises m ! 0) = Resolved
      \<and> (\<forall>k<length (promises m). job (promises m ! k) = (k - 1) div 2)
      \<and> (\<forall>k<length (promises m). 0 < k \<longrightarrow>
            origin (promises m ! k) = (if odd k then ThenOf (k - 1) else CatchOf (k - 1))))"

definition in_order :: "machine \<Rightarrow> bool" where
  "in_order m =
     (state_of m 0 = Fulfilled
      \<and> (\<forall>k<length (promises m). state_of m k \<noteq> Pending \<longrightarrow>
            (\<forall>i<k. settled (state_of m i))))"

definition reaction_ok :: "machine \<Rightarrow> nat \<Rightarrow> bool" where
  "reaction_ok m k =
     (case origin (promises m ! k) of
        Resolved \<Rightarrow> True
      | ThenOf p \<Rightarrow>
          (state_of m p = Fulfilled \<and> Began (job (promises m ! k)) \<in> set (journal m))
          \<or> (state_of m p = Rejected \<and> state_of m k = Rejected)
      | CatchOf p \<Rightarrow>
          (state_of m p = Fulfilled \<and> state_of m k = Fulfilled)
          \<or> (state_of m p = Rejected \<and> Began (job (promises m ! k)) \<in> set (journal m)))"

definition reacted :: "machine \<Rightarrow> bool" where
  "reacted m = (\<forall>k<length (promises m). state_of m k \<noteq> Pending \<longrightarrow> reaction_ok m k)"

definition journal_ok :: "machine \<Rightarrow> bool" where
  "journal_ok m =
     (sorted (map entry_job (journal m)) \<and> sorted_wrt (<) (commits (journal m))
      \<and> (\<forall>e\<in>set (journal m). \<exists>k<length (promises m).
            state_of m k \<noteq> Pending \<and> job (promises m ! k) = entry_job e)
      \<and> (\<forall>j. Committed j \<in> set (journal m) \<longrightarrow>
            (\<exists>k<length (promises m). 0 < k \<and> job (promises m ! k) = j
               \<and> state_of m k = Fulfilled)))"

definition chain_ok :: "machine \<Rightarrow> bool" where
  "chain_ok m = (shape m \<and> in_order m \<and> reacted m \<and> journal_ok m)"

text \<open>
  An event other than a new call moves one promise \<open>k\<close> to a state \<open>s\<close> and adds the entries
  \<open>es\<close> to the journal; \<open>legal\<close> lists the moves there are.
\<close>

definition advances :: "machine \<Rightarrow> nat \<Rightarrow> pstate \<Rightarrow> entry list \<Rightarrow> machine \<Rightarrow> bool" where
  "advances m k s es m1 =
     (k < length (promises m)
      \<and> promises m1 = (promises m)[k := (promises m ! k)\<lparr>pstate := s\<rparr>]
      \<and> jobs m1 = jobs m \<and> queue m1 = queue m \<and> journal m1 = journal m @ es)"

definition legal :: "machine \<Rightarrow> nat \<Rightarrow> pstate \<Rightarrow> entry list \<Rightarrow> bool" where
  "legal m k s es =
     (case state_of m k of
        Pending \<Rightarrow>
          (case origin (promises m ! k) of
             Resolved \<Rightarrow> False
           | ThenOf p \<Rightarrow>
               p < length (promises m)
               \<and> (state_of m p = Fulfilled \<and> s = Running Writing
                      \<and> es = [Began (job (promises m ! k))]
                    \<or> state_of m p = Rejected \<and> s = Rejected \<and> es = [])
           | CatchOf p \<Rightarrow>
               p < length (promises m)
               \<and> (state_of m p = Fulfilled \<and> s = Fulfilled \<and> es = []
                    \<or> state_of m p = Rejected \<and> s = Running Writing
                      \<and> es = [Began (job (promises m ! k))]))
      | Running Writing \<Rightarrow> es = [] \<and> (s = Running Renaming \<or> s = Rejected)
      | Running Renaming \<Rightarrow>
          s = Rejected \<and> es = []
          \<or> s = Fulfilled \<and> es = [Committed (job (promises m ! k))]
      | Fulfilled \<Rightarrow> False
      | Rejected \<Rightarrow> False)"

text \<open>
  The store above runs a save to its end before anything else happens.  That is one run of
  the machine: from a machine in which every promise is settled (\<open>quiet\<close>), the events of
  one save, with the outcomes of the file-system calls taken from the same list.  \<open>fn_events\<close> are
  the events of one call of \<open>fn\<close> by promise \<open>k\<close>, with the outcomes left and whether \<open>fn\<close>
  succeeded; \<open>matches\<close> says that a machine and a state of the store hold the same files and
  the same queue; \<open>grown\<close> is a machine after one more call of \<^verbatim>\<open>enqueueWrite\<close>.
\<close>

definition quiet :: "machine \<Rightarrow> bool" where
  "quiet m = list_all (\<lambda>p. settled (pstate p)) (promises m)"

definition fn_events :: "nat \<Rightarrow> fs_code option list \<Rightarrow> event list \<times> fs_code option list \<times> bool" where
  "fn_events k rs =
     (case rs of
        [] \<Rightarrow> ([WriteFileDone k None, RenameDone k None], [], True)
      | Some c # rs1 \<Rightarrow> ([WriteFileDone k (Some c)], rs1, False)
      | None # rs1 \<Rightarrow>
          (case rs1 of
             [] \<Rightarrow> ([WriteFileDone k None, RenameDone k None], [], True)
           | r # rs2 \<Rightarrow> ([WriteFileDone k None, RenameDone k r], rs2, r = None)))"

definition save_events :: "machine \<Rightarrow> book list \<Rightarrow> fs_code option list \<Rightarrow> event list" where
  "save_events m books rs =
     (let p1 = length (promises m); p2 = Suc p1 in
      if state_of m (queue m) = Fulfilled then
        (let first = fn_events p1 rs in
         [Enqueue books, Settle p1] @ fst first @ [Settle p2]
         @ (if snd (snd first) then [] else fst (fn_events p2 (fst (snd first)))))
      else [Enqueue books, Settle p1, Settle p2] @ fst (fn_events p2 rs))"

definition matches :: "machine \<Rightarrow> world \<Rightarrow> bool" where
  "matches m w =
     (quiet m \<and> queue m < length (promises m)
      \<and> disk m = books_file w \<and> tmp m = tmp_file w
      \<and> (state_of m (queue m) = Fulfilled) = (writeQueue w = Inr ()))"

definition grown ::
  "machine \<Rightarrow> book list \<Rightarrow> pstate \<Rightarrow> pstate \<Rightarrow> filetext option \<Rightarrow> filetext option
     \<Rightarrow> entry list \<Rightarrow> machine" where
  "grown m books s1 s2 d t J =
     m\<lparr>promises := promises m @
          [\<lparr>origin = ThenOf (queue m), job = jobs m, closure_books = books, pstate = s1\<rparr>,
           \<lparr>origin = CatchOf (length (promises m)), job = jobs m, closure_books = books,
            pstate = s2\<rparr>],
       queue := Suc (length (promises m)), jobs := Suc (jobs m),
       disk := d, tmp := t, journal := journal m @ J\<rparr>"

section \<open>Facts about the store\<close>

text \<open>
  With no failure to come (\<open>io w = []\<close>) a save writes the temporary file once, renames it once
  and leaves the queue fulfilled, whatever the queue held before.
\<close>

lemma write_task_ok:
  assumes "io w = []"
  shows "write_task bs w =
    (Inr (), w\<lparr>books_file := Some (Json (Books bs)), tmp_file := None,
              trace := trace w @ [WriteFile (Json (Books bs)), Rename]\<rparr>)"
  using assms
  by (simp add: write_task_def fs_writeFile_def fs_rename_def fs_attempt_def
        JSON_stringify_def Let_def)

lemma writeBooksFile_ok:
  assumes "io w = []"
  shows "writeBooksFile bs w =
    (Inr (), w\<lparr>books_file := Some (Json (Books bs)), tmp_file := None, writeQueue := Inr (),
              trace := trace w @ [WriteFile (Json (Books bs)), Rename]\<rparr>)"
  using assms
  by (cases "writeQueue w")
     (simp_all add: writeBooksFile_def enqueueWrite_def write_task_ok)

lemma write_task_Inr:
  "write_task bs w = (Inr u, w1) \<Longrightarrow> books_file w1 = Some (Json (Books bs))"
  by (auto simp: write_task_def fs_writeFile_def fs_rename_def fs_attempt_def
        JSON_stringify_def Let_def split: list.splits option.splits prod.splits sum.splits)

lemma writeBooksFile_Inr:
  "writeBooksFile bs w = (Inr u, w1) \<Longrightarrow> books_file w1 = Some (Json (Books bs))"
  by (auto simp: writeBooksFile_def enqueueWrite_def Let_def
        split: sum.splits prod.splits dest: write_task_Inr)

lemma readBooksFile_present:
  assumes "io w = []" and "books_file w = Some (Json v)"
  shows "readBooksFile w = (Inr v, w\<lparr>trace := trace w @ [ReadFile]\<rparr>)"
  using assms
  by (simp add: readBooksFile_def fs_readFile_def fs_attempt_def JSON_parse_def)

lemma readBooksFile_missing:
  assumes "io w = []" and "books_file w = None"
  shows "readBooksFile w =
    (Inr (Books SAMPLE_BOOKS),
     w\<lparr>books_file := Some (Json (Books SAMPLE_BOOKS)), tmp_file := None, writeQueue := Inr (),
       trace := trace w @ [ReadFile, WriteFile (Json (Books SAMPLE_BOOKS)), Rename]\<rparr>)"
  using assms
  by (simp add: readBooksFile_def fs_readFile_def fs_attempt_def read_catch_def writeBooksFile_ok)

lemma readBooksFile_read_ok:
  assumes "io w = [] \<or> (\<exists>rs. io w = None # rs)" and "books_file w = Some t"
  shows "fst (readBooksFile w) = (case t of Json v \<Rightarrow> Inr v | Garbage s \<Rightarrow> Inl SyntaxError)"
  using assms
  by (auto simp: readBooksFile_def fs_readFile_def fs_attempt_def JSON_parse_def read_catch_def
        split: filetext.splits)

section \<open>Facts about the handlers\<close>

lemma foldl_max_Max:
  "foldl (\<lambda>m b. max m (book_id b)) a bs = Max (insert a (book_id ` set bs))"
proof (induction bs arbitrary: a)
  case Nil
  show ?case by simp
next
  case (Cons b bs)
  have "Max (insert (max a (book_id b)) (book_id ` set bs))
        = Max (insert a (insert (book_id b) (book_id ` set bs)))"
    by (cases "set bs = {}") (simp_all add: max.assoc max.commute)
  with Cons show ?case by simp
qed

lemma maxId_Max: "maxId bs = Max (insert 0 (book_id ` set bs))"
  by (simp add: maxId_def foldl_max_Max)

lemma maxId_ge: "b \<in> set bs \<Longrightarrow> book_id b \<le> maxId bs"
  by (simp add: maxId_Max)

lemma maxId_snoc: "maxId (bs @ [b]) = max (maxId bs) (book_id b)"
  by (simp add: maxId_def)

lemma maxId_nonneg: "0 \<le> maxId bs"
  by (simp add: maxId_Max)

text \<open>
  Up to \<open>2^53\<close> every integer is held by a double, so a sum that stays there is exact; the sum
  \<open>2^53 + 1\<close> lies halfway between two doubles and is rounded to the even one, \<open>2^53\<close>.
\<close>

lemma exponent_small: "a < 2 ^ 53 \<Longrightarrow> exponent a = 0"
  by (simp add: exponent.simps)

lemma double_of_small: "\<bar>x\<bar> < 2 ^ 53 \<Longrightarrow> double_of x = x"
proof -
  assume "\<bar>x\<bar> < 2 ^ 53"
  then have "exponent \<bar>x\<bar> = 0" by (rule exponent_small)
  then show ?thesis
    by (simp add: double_of_def Let_def sgn_if)
qed

lemma double_of_2_53: "double_of (2 ^ 53) = 2 ^ 53" "double_of (- (2 ^ 53)) = - (2 ^ 53)"
  by code_simp+

lemma double_of_exact: "\<bar>x\<bar> \<le> 2 ^ 53 \<Longrightarrow> double_of x = x"
proof -
  assume "\<bar>x\<bar> \<le> 2 ^ 53"
  then consider "\<bar>x\<bar> < 2 ^ 53" | "x = 2 ^ 53" | "x = - (2 ^ 53)" by linarith
  then show ?thesis
  proof cases
    case 1
    then show ?thesis by (rule double_of_small)
  next
    case 2
    then show ?thesis by (simp only: double_of_2_53)
  next
    case 3
    then show ?thesis by (simp only: double_of_2_53)
  qed
qed

lemma js_plus_exact [simp]: "\<bar>a + b\<bar> \<le> 2 ^ 53 \<Longrightarrow> js_plus a b = a + b"
  by (simp add: js_plus_def double_of_exact)

lemma js_plus_2_53: "js_plus (2 ^ 53) 1 = 2 ^ 53"
  by code_simp

text \<open>
  Rounding gives a double: below \<open>2^53\<close> every integer is one, and from there on the
  multiples \<open>q * 2^e\<close> of a significand \<open>q\<close> of 53 bits are.  So the greatest id of a
  collection of doubles is a double, and the id of a new record is a double whatever the
  collection holds.
\<close>

lemma exponent_range:
  "(exponent a = 0 \<longrightarrow> a < 2 ^ 53)
   \<and> (0 < exponent a \<longrightarrow> 2 ^ 52 \<le> a div 2 ^ exponent a \<and> a div 2 ^ exponent a < 2 ^ 53)"
proof (induction a rule: exponent.induct)
  case (1 a)
  show ?case
  proof (cases "a < 2 ^ 53")
    case True
    then show ?thesis by (simp add: exponent_small)
  next
    case False
    then have e: "exponent a = Suc (exponent (a div 2))"
      by (subst exponent.simps) simp
    have d: "a div 2 ^ Suc n = a div 2 div 2 ^ n" for n
      by (simp add: zdiv_zmult2_eq)
    from 1 [OF False] have ih:
      "(exponent (a div 2) = 0 \<longrightarrow> a div 2 < 2 ^ 53)
       \<and> (0 < exponent (a div 2) \<longrightarrow> 2 ^ 52 \<le> a div 2 div 2 ^ exponent (a div 2)
            \<and> a div 2 div 2 ^ exponent (a div 2) < 2 ^ 53)" .
    show ?thesis
    proof (cases "exponent (a div 2)")
      case 0
      with ih have "a div 2 < 2 ^ 53" by simp
      moreover from False have "2 ^ 52 \<le> a div 2" by simp
      ultimately show ?thesis using e 0 by simp
    next
      case (Suc n)
      with ih show ?thesis unfolding e d by simp
    qed
  qed
qed

lemma exponent_mult:
  assumes "2 ^ 52 \<le> q" "q < 2 ^ 53"
  shows "exponent (q * 2 ^ e) = e"
proof (induction e)
  case 0
  with assms show ?case by (simp add: exponent_small)
next
  case (Suc e)
  have "(1::int) \<le> 2 ^ e" by simp
  with assms(1) have "2 ^ 52 * 1 \<le> q * 2 ^ e"
    by (intro mult_mono) simp_all
  then have "\<not> q * 2 ^ Suc e < 2 ^ 53" by simp
  then have "exponent (q * 2 ^ Suc e) = Suc (exponent (q * 2 ^ Suc e div 2))"
    by (subst exponent.simps) simp
  also have "q * 2 ^ Suc e div 2 = q * 2 ^ e" by simp
  finally show ?case using Suc by simp
qed

lemma double_of_multiple:
  assumes "2 ^ 52 \<le> q" "q < 2 ^ 53" "s = 1 \<or> s = - 1"
  shows "double_of (s * (q * 2 ^ e)) = s * (q * 2 ^ e)"
proof -
  have "0 < q" using assms(1) by simp
  with assms(3) have a: "\<bar>s * (q * 2 ^ e)\<bar> = q * 2 ^ e" and sg: "sgn (s * (q * 2 ^ e)) = s"
    by (auto simp: abs_mult sgn_mult)
  have ex: "exponent (q * 2 ^ e) = e" using assms(1,2) by (rule exponent_mult)
  have "(2::int) ^ e \<noteq> 0" by simp
  then show ?thesis
    unfolding double_of_def a sg ex Let_def by simp
qed

lemma double_of_idem: "double_of (double_of x) = double_of x"
proof (cases "exponent \<bar>x\<bar>")
  case 0
  with exponent_range [of "\<bar>x\<bar>"] have "\<bar>x\<bar> < 2 ^ 53" by simp
  then show ?thesis by (simp add: double_of_small)
next
  case (Suc n)
  let ?e = "Suc n"
  let ?q = "\<bar>x\<bar> div 2 ^ ?e"
  let ?r = "\<bar>x\<bar> mod 2 ^ ?e"
  let ?q' = "if 2 ^ ?e < 2 * ?r \<or> (2 * ?r = 2 ^ ?e \<and> odd ?q) then ?q + 1 else ?q"
  from exponent_range [of "\<bar>x\<bar>"] Suc have q: "2 ^ 52 \<le> ?q" "?q < 2 ^ 53" by simp_all
  then have "x \<noteq> 0" by auto
  then have s: "sgn x = 1 \<or> sgn x = - 1" by (auto simp: sgn_if)
  have d: "double_of x = sgn x * (?q' * 2 ^ ?e)"
    unfolding double_of_def Let_def Suc ..
  show ?thesis
  proof (cases "?q' < 2 ^ 53")
    case True
    moreover have "2 ^ 52 \<le> ?q'" using q(1) by simp
    ultimately show ?thesis
      unfolding d using s by (intro double_of_multiple)
  next
    case False
    with q(2) have "?q' = 2 ^ 53" by (simp split: if_splits)
    then have "double_of x = sgn x * (2 ^ 52 * 2 ^ Suc ?e)"
      unfolding d by simp
    moreover have "double_of (sgn x * (2 ^ 52 * 2 ^ Suc ?e)) = sgn x * (2 ^ 52 * 2 ^ Suc ?e)"
      using s by (intro double_of_multiple) simp_all
    ultimately show ?thesis by simp
  qed
qed

lemma is_double_double_of: "is_double (double_of x)"
  by (simp add: is_double_def double_of_idem)

lemma is_double_small: "\<bar>x\<bar> \<le> 2 ^ 53 \<Longrightarrow> is_double x"
  by (simp add: is_double_def double_of_exact)

lemma is_double_maxId:
  assumes "\<forall>b\<in>set books. is_double (book_id b)"
  shows "is_double (maxId books)"
proof -
  have "Max (insert 0 (book_id ` set books)) \<in> insert 0 (book_id ` set books)"
    by (rule Max_in) simp_all
  then have "maxId books = 0 \<or> (\<exists>b\<in>set books. maxId books = book_id b)"
    unfolding maxId_Max by auto
  then show ?thesis
    using assms by (auto simp: is_double_small)
qed

lemma newBook_id: "book_id (newBook req books) = js_plus (maxId books) 1"
  by (simp add: newBook_def)

lemma is_double_newBook: "is_double (book_id (newBook req books))"
  by (simp only: newBook_id js_plus_def is_double_double_of)

lemma newBook_id_exact:
  assumes "maxId books < 2 ^ 53"
  shows "book_id (newBook req books) = maxId books + 1"
proof -
  have "\<bar>maxId books + 1\<bar> \<le> 2 ^ 53"
    using assms maxId_nonneg [of books] by simp
  then show ?thesis
    by (simp add: newBook_id)
qed

lemma js_not_iff: "js_not s \<longleftrightarrow> s \<in> {None, Some []}"
  by (cases s) (simp_all add: js_not_def)

lemma findIndex_Some:
  "findIndex P xs = Some i \<Longrightarrow> i < length xs \<and> P (xs ! i) \<and> (\<forall>j<i. \<not> P (xs ! j))"
proof (induction xs arbitrary: i)
  case Nil
  then show ?case by simp
next
  case (Cons x xs)
  show ?case
  proof (cases "P x")
    case True
    with Cons.prems show ?thesis by simp
  next
    case False
    with Cons.prems obtain k where k: "findIndex P xs = Some k" "i = Suc k"
      by auto
    from Cons.IH [OF k(1)] False k(2) show ?thesis
      by (auto simp: less_Suc_eq_0_disj)
  qed
qed


lemma findIndex_distinct:
  assumes "distinct (map f xs)" "i < length xs"
  shows "findIndex (\<lambda>x. f x = f (xs ! i)) xs = Some i"
  using assms
proof (induction xs arbitrary: i)
  case Nil
  then show ?case by simp
next
  case (Cons x xs)
  show ?case
  proof (cases i)
    case 0
    then show ?thesis by simp
  next
    case (Suc k)
    with Cons.prems have "f x \<noteq> f (xs ! k)" by auto
    with Suc Cons show ?thesis by simp
  qed
qed

lemma valid_id_iff:
  "(\<not> (\<not> Number_isInteger n \<or> le_zero n)) \<longleftrightarrow> (\<exists>k. 0 < k \<and> n = Finite (of_int k))"
proof
  assume a: "\<not> (\<not> Number_isInteger n \<or> le_zero n)"
  then obtain r where r: "n = Finite r" "of_int \<lfloor>r\<rfloor> = r" "0 < r"
    by (cases n) (auto simp: Number_isInteger_def le_zero_def)
  then have "0 < \<lfloor>r\<rfloor>" by linarith
  with r show "\<exists>k. 0 < k \<and> n = Finite (of_int k)" by metis
next
  assume "\<exists>k. 0 < k \<and> n = Finite (of_int k)"
  then show "\<not> (\<not> Number_isInteger n \<or> le_zero n)"
    by (auto simp: Number_isInteger_def le_zero_def)
qed

lemma id_eq_of_int [simp]: "id_eq (Finite (of_int k)) b \<longleftrightarrow> book_id b = k"
  by (simp add: id_eq_def)

lemma post_books_present:
  assumes "\<not> js_not (p_title req)" "\<not> js_not (p_author req)"
    and "io w = []" and "books_file w = Some (Json (Books books))"
  shows "post_books req w =
     (\<lparr>status = 201, body = BookBody (newBook req books)\<rparr>,
      w\<lparr>books_file := Some (Json (Books (books @ [newBook req books]))), tmp_file := None,
        writeQueue := Inr (),
        trace := trace w @ [ReadFile, WriteFile (Json (Books (books @ [newBook req books]))), Rename]\<rparr>)"
  using assms
  by (simp add: post_books_def readBooksFile_present writeBooksFile_ok Let_def newBook_def)

lemma post_books_missing:
  assumes "\<not> js_not (p_title req)" "\<not> js_not (p_author req)"
    and "io w = []" and "books_file w = None"
  shows "post_books req w =
     (\<lparr>status = 201, body = BookBody (newBook req SAMPLE_BOOKS)\<rparr>,
      w\<lparr>books_file := Some (Json (Books (SAMPLE_BOOKS @ [newBook req SAMPLE_BOOKS]))), tmp_file := None,
        writeQueue := Inr (),
        trace := trace w @ [ReadFile, WriteFile (Json (Books SAMPLE_BOOKS)), Rename,
           WriteFile (Json (Books (SAMPLE_BOOKS @ [newBook req SAMPLE_BOOKS]))), Rename]\<rparr>)"
  using assms
  by (simp add: post_books_def readBooksFile_missing writeBooksFile_ok Let_def newBook_def)

lemma post_books_io:
  assumes "\<not> js_not (p_title req) \<and> \<not> js_not (p_author req)" "io w = []" "books_file w = Some (Json (Books books))"
  shows "\<exists>w'. post_books req w = (\<lparr>status = 201, body = BookBody (newBook req books)\<rparr>, w')
     \<and> io w' = [] \<and> books_file w' = Some (Json (Books (books @ [newBook req books])))"
  using assms by (simp add: post_books_present)

lemma delete_book_present:
  assumes "0 < k" "io w = []" "books_file w = Some (Json (Books books))"
    and "findIndex (id_eq (Finite (of_int k))) books = Some idx"
  shows "delete_book (Finite (of_int k)) w =
     (\<lparr>status = 200, body = DeletedBody (books ! idx)\<rparr>,
      w\<lparr>books_file := Some (Json (Books (splice1 idx books))), tmp_file := None,
        writeQueue := Inr (),
        trace := trace w @ [ReadFile, WriteFile (Json (Books (splice1 idx books))), Rename]\<rparr>)"
proof -
  from assms(1)
  have "\<not> (\<not> Number_isInteger (Finite (of_int k)) \<or> le_zero (Finite (of_int k)))"
    using valid_id_iff [of "Finite (of_int k)"] by blast
  then show ?thesis
    using assms
    by (simp add: delete_book_def readBooksFile_present writeBooksFile_ok Let_def)
qed

lemma serve_posts:
  assumes "\<forall>req\<in>set reqs. \<not> js_not (p_title req) \<and> \<not> js_not (p_author req)" "io w = []"
    "books_file w = Some (Json (Books books))"
    "maxId books + int (length reqs) \<le> 2 ^ 53"
  shows "\<exists>new w'. serve (map PostBooks reqs) w =
            (map (\<lambda>b. \<lparr>status = 201, body = BookBody b\<rparr>) new, w')
     \<and> io w' = [] \<and> books_file w' = Some (Json (Books (books @ new)))
     \<and> map book_id new = map (\<lambda>i. maxId books + 1 + int i) [0..<length reqs]"
  using assms
proof (induction reqs arbitrary: w books)
  case Nil
  then show ?case by simp
next
  case (Cons req reqs)
  let ?b = "newBook req books"
  from Cons.prems obtain w1 where
    p: "post_books req w = (\<lparr>status = 201, body = BookBody ?b\<rparr>, w1)"
       "io w1 = []" "books_file w1 = Some (Json (Books (books @ [?b])))"
    using post_books_io [of req w books] by auto
  from Cons.prems have v: "\<forall>r\<in>set reqs. \<not> js_not (p_title r) \<and> \<not> js_not (p_author r)" by simp
  from Cons.prems(4) have "maxId books < 2 ^ 53" by simp
  then have new_id: "book_id ?b = maxId books + 1" by (rule newBook_id_exact)
  have m: "maxId (books @ [?b]) = maxId books + 1"
    by (simp add: maxId_snoc new_id)
  from Cons.prems(4) have bound: "maxId (books @ [?b]) + int (length reqs) \<le> 2 ^ 53"
    by (simp add: m)
  from Cons.IH [OF v p(2) p(3) bound] obtain new w' where
    s: "serve (map PostBooks reqs) w1 = (map (\<lambda>b. \<lparr>status = 201, body = BookBody b\<rparr>) new, w')"
       "io w' = []" "books_file w' = Some (Json (Books ((books @ [?b]) @ new)))"
       "map book_id new = map (\<lambda>i. maxId (books @ [?b]) + 1 + int i) [0..<length reqs]"
    by blast
  have ids: "map book_id (?b # new) = map (\<lambda>i. maxId books + 1 + int i) [0..<length (req # reqs)]"
  proof -
    have "[0..<length (req # reqs)] = 0 # map Suc [0..<length reqs]"
      by (simp add: upt_conv_Cons map_Suc_upt del: upt_Suc)
    then show ?thesis
      using s(4) m new_id by (simp add: comp_def add.assoc del: upt_Suc)
  qed
  show ?case
    using p(1) s(1,2,3) ids
    by (intro exI [of _ "?b # new"] exI [of _ w']) (simp add: app_def)
qed

lemma serve_posts_ids:
  assumes "io w = []" and "books_file w = Some (Json (Books books))"
    and "\<forall>req\<in>set reqs. p_title req \<notin> {None, Some []} \<and> p_author req \<notin> {None, Some []}"
    and "Max (insert 0 (book_id ` set books)) + int (length reqs) \<le> 2 ^ 53"
  shows "\<exists>new w'.
      serve (map PostBooks reqs) w = (map (\<lambda>b. \<lparr>status = 201, body = BookBody b\<rparr>) new, w')
    \<and> books_file w' = Some (Json (Books (books @ new)))
    \<and> map book_id new
        = map (\<lambda>i. Max (insert 0 (book_id ` set books)) + 1 + int i) [0..<length reqs]
    \<and> (\<forall>b\<in>set books. \<forall>c\<in>set new. book_id b < book_id c)
    \<and> sorted_wrt (<) (map book_id new)
    \<and> (books = [] \<longrightarrow> map book_id new = [1..int (length reqs)])"
proof -
  from assms(3) have v: "\<forall>req\<in>set reqs. \<not> js_not (p_title req) \<and> \<not> js_not (p_author req)"
    by (simp add: js_not_iff)
  from assms(4) have bound: "maxId books + int (length reqs) \<le> 2 ^ 53"
    by (simp add: maxId_Max)
  from serve_posts [OF v assms(1,2) bound] obtain new w' where
    s: "serve (map PostBooks reqs) w = (map (\<lambda>b. \<lparr>status = 201, body = BookBody b\<rparr>) new, w')"
       "books_file w' = Some (Json (Books (books @ new)))"
       "map book_id new = map (\<lambda>i. maxId books + 1 + int i) [0..<length reqs]"
    by blast
  have gt: "book_id b < book_id c" if "b \<in> set books" "c \<in> set new" for b c
  proof -
    from that(2) have "book_id c \<in> set (map book_id new)" by simp
    then obtain i where "book_id c = maxId books + 1 + int i"
      unfolding s(3) by auto
    with maxId_ge [OF that(1)] show ?thesis by simp
  qed
  have incr: "sorted_wrt (<) (map book_id new)"
    unfolding s(3) by (simp add: sorted_wrt_map)
  have empty: "map book_id new = [1..int (length reqs)]" if "books = []"
  proof -
    have "map (\<lambda>i. 1 + int i) [0..<n] = [1..int n]" for n
    proof (induction n)
      case 0
      show ?case by simp
    next
      case (Suc n)
      have "[1..int (Suc n)] = [1..int n] @ [int n + 1]"
        using upto_rec2 [of 1 "int n + 1"] by (simp add: add.commute)
      with Suc show ?case by simp
    qed
    with that s(3) show ?thesis by (simp add: maxId_def)
  qed
  show ?thesis
    using s gt incr empty
    by (intro exI [of _ new] exI [of _ w']) (simp add: maxId_Max)
qed

lemma maxId_splice_max:
  assumes "distinct (map book_id books)" "\<forall>b\<in>set books. 0 < book_id b"
    "idx < length books" "book_id (books ! idx) = maxId books"
  shows "maxId (splice1 idx books) < book_id (books ! idx)"
proof -
  have pos: "0 < book_id (books ! idx)" using assms(2,3) by simp
  have "book_id b < book_id (books ! idx)" if "b \<in> set (splice1 idx books)" for b
  proof -
    from that have b: "b \<in> set (take idx books) \<or> b \<in> set (drop (Suc idx) books)"
      by (simp add: splice1_def)
    have "books = take idx books @ books ! idx # drop (Suc idx) books"
      using assms(3) by (simp add: id_take_nth_drop)
    then have "distinct (map book_id (take idx books @ books ! idx # drop (Suc idx) books))"
      using assms(1) by simp
    then have ne: "book_id b \<noteq> book_id (books ! idx)"
      using b by (auto simp: image_iff)
    from b have "b \<in> set books"
      by (auto dest: in_set_takeD in_set_dropD)
    then have "book_id b \<le> maxId books" by (rule maxId_ge)
    with ne assms(4) show ?thesis by simp
  qed
  then show ?thesis
    using pos by (simp add: maxId_Max)
qed

lemma delete_max_then_create:
  assumes "io w = []" and "books_file w = Some (Json (Books books))"
    and "idx < length books" and "distinct (map book_id books)"
    and "\<forall>b\<in>set books. 0 < book_id b"
    and "book_id (books ! idx) = Max (insert 0 (book_id ` set books))"
    and "book_id (books ! idx) \<le> 2 ^ 53"
    and "p_title req \<notin> {None, Some []} \<and> p_author req \<notin> {None, Some []}"
  shows "\<exists>w1 book w2.
        delete_book (Finite (of_int (book_id (books ! idx)))) w
          = (\<lparr>status = 200, body = DeletedBody (books ! idx)\<rparr>, w1)
      \<and> books_file w1 = Some (Json (Books (take idx books @ drop (Suc idx) books)))
      \<and> post_books req w1 = (\<lparr>status = 201, body = BookBody book\<rparr>, w2)
      \<and> books_file w2 = Some (Json (Books ((take idx books @ drop (Suc idx) books) @ [book])))
      \<and> book_id book
          = Max (insert 0 (book_id ` set (take idx books @ drop (Suc idx) books))) + 1
      \<and> book_id book \<le> book_id (books ! idx)"
proof -
  let ?k = "book_id (books ! idx)"
  let ?rest = "splice1 idx books"
  have rest: "?rest = take idx books @ drop (Suc idx) books"
    by (simp add: splice1_def)
  have pos: "0 < ?k" using assms(3,5) by simp
  have "findIndex (\<lambda>x. book_id x = ?k) books = Some idx"
    using assms(3,4) by (simp add: findIndex_distinct)
  moreover have "id_eq (Finite (of_int ?k)) = (\<lambda>x. book_id x = ?k)"
    by (rule ext) simp
  ultimately have fi: "findIndex (id_eq (Finite (of_int ?k))) books = Some idx"
    by simp
  let ?w1 = "w\<lparr>books_file := Some (Json (Books ?rest)), tmp_file := None,
        writeQueue := Inr (),
        trace := trace w @ [ReadFile, WriteFile (Json (Books ?rest)), Rename]\<rparr>"
  have d: "delete_book (Finite (of_int ?k)) w
        = (\<lparr>status = 200, body = DeletedBody (books ! idx)\<rparr>, ?w1)"
    using delete_book_present [OF pos assms(1,2) fi] .
  have v: "\<not> js_not (p_title req) \<and> \<not> js_not (p_author req)"
    using assms(8) by (simp add: js_not_iff)
  have f1: "io ?w1 = []" "books_file ?w1 = Some (Json (Books ?rest))"
    using assms(1) by simp_all
  from post_books_io [OF v f1] obtain w2 where
    p: "post_books req ?w1 = (\<lparr>status = 201, body = BookBody (newBook req ?rest)\<rparr>, w2)"
       "books_file w2 = Some (Json (Books (?rest @ [newBook req ?rest])))"
    by blast
  have less: "maxId ?rest < ?k"
    using assms(3,4,5,6) by (intro maxId_splice_max) (simp_all add: maxId_Max)
  with assms(7) have "maxId ?rest < 2 ^ 53" by simp
  then have new_id: "book_id (newBook req ?rest) = maxId ?rest + 1"
    by (rule newBook_id_exact)
  have is_next: "book_id (newBook req ?rest) = Max (insert 0 (book_id ` set ?rest)) + 1"
    using new_id by (simp only: maxId_Max)
  have at_most: "book_id (newBook req ?rest) \<le> ?k"
    using less new_id by simp
  from d f1(2) p is_next at_most show ?thesis
    unfolding rest by blast
qed

lemma create_at_2_53:
  assumes "io w = []" and "books_file w = Some (Json (Books books))"
    and "Max (insert 0 (book_id ` set books)) = 2 ^ 53"
    and "p_title req \<notin> {None, Some []} \<and> p_author req \<notin> {None, Some []}"
  shows "\<exists>book w'.
        post_books req w = (\<lparr>status = 201, body = BookBody book\<rparr>, w')
      \<and> books_file w' = Some (Json (Books (books @ [book])))
      \<and> book_id book = 2 ^ 53
      \<and> (\<exists>b\<in>set books. book_id b = book_id book)"
proof -
  have v: "\<not> js_not (p_title req) \<and> \<not> js_not (p_author req)"
    using assms(4) by (simp add: js_not_iff)
  from post_books_io [OF v assms(1,2)] obtain w' where
    p: "post_books req w = (\<lparr>status = 201, body = BookBody (newBook req books)\<rparr>, w')"
       "books_file w' = Some (Json (Books (books @ [newBook req books])))"
    by blast
  have "maxId books = 2 ^ 53"
    using assms(3) by (simp only: maxId_Max)
  then have new_id: "book_id (newBook req books) = 2 ^ 53"
    by (simp only: newBook_id js_plus_2_53)
  have "Max (insert 0 (book_id ` set books)) \<in> insert 0 (book_id ` set books)"
    by (rule Max_in) simp_all
  with assms(3) have "(2 ^ 53 :: int) \<in> book_id ` set books"
    by simp
  then have "\<exists>b\<in>set books. book_id b = book_id (newBook req books)"
    unfolding new_id by auto
  with p new_id show ?thesis by blast
qed

text \<open>
  The definitions a closed term needs to be evaluated by the simplifier.
\<close>

lemmas eval_defs =
  app_def get_books_def get_books_available_def post_books_def put_book_def delete_book_def
  start_def js_not_def error_handler_def
  readBooksFile_def read_catch_def fs_readFile_def fs_attempt_def JSON_parse_def
  writeBooksFile_def enqueueWrite_def write_task_def fs_writeFile_def fs_rename_def
  JSON_stringify_def newBook_def maxId_def available_or_true_def apply_update_def js_Boolean_def
  Number_isInteger_def le_zero_def id_eq_def splice1_def SAMPLE_BOOKS_def Let_def

section \<open>Identifiers of new records\<close>

text \<open>
  Claim C1, as the code has it.  With no storage failure and a file that holds the collection
  \<open>books\<close>, let \<open>m\<close> be the maximum of 0 and the ids of \<open>books\<close>.

  Creating the \<open>N\<close> records of \<open>reqs\<close> one after the other, where \<open>m + N\<close> is at most \<open>2^53\<close>,
  answers 201 each time and appends the new records in creation order; their ids are
  \<open>m + 1, ..., m + N\<close>, so the first id is \<open>max (existing ids, 0) + 1\<close>; every new id is
  strictly greater than every id the collection held and than every id created before it; and
  from the empty collection the ids are \<open>1..N\<close>.

  An id is not kept once its record is gone.  When the ids are distinct, positive and at most
  \<open>2^53\<close>, and the record at \<open>idx\<close> holds the maximum: deleting it leaves the other records in
  the file, and the record created next gets the id \<open>max (remaining ids, 0) + 1\<close>, which is
  at most the deleted id.

  The sum \<^verbatim>\<open>maxId + 1\<close> is a sum of doubles.  When \<open>m\<close> is \<open>2^53\<close>, the new record gets the id
  \<open>2^53\<close> again, the id of a record that the collection holds.
\<close>

theorem create_ids:
  assumes "io w = []" and "books_file w = Some (Json (Books books))"
  shows "((\<forall>req\<in>set reqs. p_title req \<notin> {None, Some []} \<and> p_author req \<notin> {None, Some []})
        \<and> Max (insert 0 (book_id ` set books)) + int (length reqs) \<le> 2 ^ 53 \<longrightarrow>
      (\<exists>new w'.
          serve (map PostBooks reqs) w = (map (\<lambda>b. \<lparr>status = 201, body = BookBody b\<rparr>) new, w')
        \<and> books_file w' = Some (Json (Books (books @ new)))
        \<and> map book_id new
            = map (\<lambda>i. Max (insert 0 (book_id ` set books)) + 1 + int i) [0..<length reqs]
        \<and> (\<forall>b\<in>set books. \<forall>c\<in>set new. book_id b < book_id c)
        \<and> sorted_wrt (<) (map book_id new)
        \<and> (books = [] \<longrightarrow> map book_id new = [1..int (length reqs)])))
    \<and> (idx < length books \<and> distinct (map book_id books) \<and> (\<forall>b\<in>set books. 0 < book_id b)
        \<and> book_id (books ! idx) = Max (insert 0 (book_id ` set books))
        \<and> book_id (books ! idx) \<le> 2 ^ 53
        \<and> p_title req \<notin> {None, Some []} \<and> p_author req \<notin> {None, Some []} \<longrightarrow>
      (\<exists>w1 book w2.
          delete_book (Finite (of_int (book_id (books ! idx)))) w
            = (\<lparr>status = 200, body = DeletedBody (books ! idx)\<rparr>, w1)
        \<and> books_file w1 = Some (Json (Books (take idx books @ drop (Suc idx) books)))
        \<and> post_books req w1 = (\<lparr>status = 201, body = BookBody book\<rparr>, w2)
        \<and> books_file w2
            = Some (Json (Books ((take idx books @ drop (Suc idx) books) @ [book])))
        \<and> book_id book
            = Max (insert 0 (book_id ` set (take idx books @ drop (Suc idx) books))) + 1
        \<and> book_id book \<le> book_id (books ! idx)))
    \<and> (Max (insert 0 (book_id ` set books)) = 2 ^ 53
        \<and> p_title req \<notin> {None, Some []} \<and> p_author req \<notin> {None, Some []} \<longrightarrow>
      (\<exists>book w'.
          post_books req w = (\<lparr>status = 201, body = BookBody book\<rparr>, w')
        \<and> books_file w' = Some (Json (Books (books @ [book])))
        \<and> book_id book = 2 ^ 53
        \<and> (\<exists>b\<in>set books. book_id b = book_id book)))"
proof (intro conjI impI)
  assume "(\<forall>req\<in>set reqs. p_title req \<notin> {None, Some []} \<and> p_author req \<notin> {None, Some []})
        \<and> Max (insert 0 (book_id ` set books)) + int (length reqs) \<le> 2 ^ 53"
  then have v: "\<forall>req\<in>set reqs. p_title req \<notin> {None, Some []} \<and> p_author req \<notin> {None, Some []}"
    and bound: "Max (insert 0 (book_id ` set books)) + int (length reqs) \<le> 2 ^ 53"
    by (rule conjunct1, rule conjunct2)
  show "\<exists>new w'.
          serve (map PostBooks reqs) w = (map (\<lambda>b. \<lparr>status = 201, body = BookBody b\<rparr>) new, w')
        \<and> books_file w' = Some (Json (Books (books @ new)))
        \<and> map book_id new
            = map (\<lambda>i. Max (insert 0 (book_id ` set books)) + 1 + int i) [0..<length reqs]
        \<and> (\<forall>b\<in>set books. \<forall>c\<in>set new. book_id b < book_id c)
        \<and> sorted_wrt (<) (map book_id new)
        \<and> (books = [] \<longrightarrow> map book_id new = [1..int (length reqs)])"
    by (rule serve_posts_ids [OF assms v bound])
next
  assume "idx < length books \<and> distinct (map book_id books) \<and> (\<forall>b\<in>set books. 0 < book_id b)
        \<and> book_id (books ! idx) = Max (insert 0 (book_id ` set books))
        \<and> book_id (books ! idx) \<le> 2 ^ 53
        \<and> p_title req \<notin> {None, Some []} \<and> p_author req \<notin> {None, Some []}"
  then have a: "idx < length books" "distinct (map book_id books)" "\<forall>b\<in>set books. 0 < book_id b"
    "book_id (books ! idx) = Max (insert 0 (book_id ` set books))"
    "book_id (books ! idx) \<le> 2 ^ 53"
    "p_title req \<notin> {None, Some []} \<and> p_author req \<notin> {None, Some []}"
    by blast+
  show "\<exists>w1 book w2.
          delete_book (Finite (of_int (book_id (books ! idx)))) w
            = (\<lparr>status = 200, body = DeletedBody (books ! idx)\<rparr>, w1)
        \<and> books_file w1 = Some (Json (Books (take idx books @ drop (Suc idx) books)))
        \<and> post_books req w1 = (\<lparr>status = 201, body = BookBody book\<rparr>, w2)
        \<and> books_file w2
            = Some (Json (Books ((take idx books @ drop (Suc idx) books) @ [book])))
        \<and> book_id book
            = Max (insert 0 (book_id ` set (take idx books @ drop (Suc idx) books))) + 1
        \<and> book_id book \<le> book_id (books ! idx)"
    by (rule delete_max_then_create [OF assms a])
next
  assume "Max (insert 0 (book_id ` set books)) = 2 ^ 53
        \<and> p_title req \<notin> {None, Some []} \<and> p_author req \<notin> {None, Some []}"
  then have a: "Max (insert 0 (book_id ` set books)) = 2 ^ 53"
    "p_title req \<notin> {None, Some []} \<and> p_author req \<notin> {None, Some []}"
    by blast+
  show "\<exists>book w'.
          post_books req w = (\<lparr>status = 201, body = BookBody book\<rparr>, w')
        \<and> books_file w' = Some (Json (Books (books @ [book])))
        \<and> book_id book = 2 ^ 53
        \<and> (\<exists>b\<in>set books. book_id b = book_id book)"
    by (rule create_at_2_53 [OF assms a])
qed

theorem create_ids_witness:
  "(\<exists>new w'.
      serve (map PostBooks
          [\<lparr>p_title = Some ''A'', p_author = Some ''X'', p_available = None\<rparr>,
           \<lparr>p_title = Some ''B'', p_author = Some ''Y'', p_available = Some (JBool False)\<rparr>])
        (start (Some (Json (Books SAMPLE_BOOKS))) [])
        = (map (\<lambda>b. \<lparr>status = 201, body = BookBody b\<rparr>) new, w')
    \<and> books_file w' = Some (Json (Books (SAMPLE_BOOKS @ new)))
    \<and> map book_id new = [3, 4])
 \<and> (\<exists>w1 book w2.
      delete_book (Finite 2) (start (Some (Json (Books SAMPLE_BOOKS))) [])
        = (\<lparr>status = 200, body = DeletedBody (SAMPLE_BOOKS ! 1)\<rparr>, w1)
    \<and> books_file w1 = Some (Json (Books [SAMPLE_BOOKS ! 0]))
    \<and> post_books \<lparr>p_title = Some ''C'', p_author = Some ''Z'', p_available = None\<rparr> w1
        = (\<lparr>status = 201, body = BookBody book\<rparr>, w2)
    \<and> book_id book = 2)
 \<and> (\<exists>book w'.
      post_books \<lparr>p_title = Some ''C'', p_author = Some ''Z'', p_available = None\<rparr>
        (start (Some (Json (Books
           [\<lparr>book_id = 9007199254740992, title = ''T'', author = ''U'', available = True\<rparr>])))
           [])
        = (\<lparr>status = 201, body = BookBody book\<rparr>, w')
    \<and> book_id book = 9007199254740992)"
proof -
  let ?w = "start (Some (Json (Books SAMPLE_BOOKS))) []"
  let ?reqs = "[\<lparr>p_title = Some ''A'', p_author = Some ''X'', p_available = None\<rparr>,
           \<lparr>p_title = Some ''B'', p_author = Some ''Y'', p_available = Some (JBool False)\<rparr>]"
  let ?req = "\<lparr>p_title = Some ''C'', p_author = Some ''Z'', p_available = None\<rparr>"
  let ?big = "[\<lparr>book_id = 9007199254740992, title = ''T'', author = ''U'', available = True\<rparr>]"
  let ?wb = "start (Some (Json (Books ?big))) []"
  have h: "io ?w = []" "books_file ?w = Some (Json (Books SAMPLE_BOOKS))"
    by (simp_all add: start_def)
  have hb: "io ?wb = []" "books_file ?wb = Some (Json (Books ?big))"
    by (simp_all add: start_def)
  have m: "Max (insert 0 (book_id ` set SAMPLE_BOOKS)) = 2"
    by (simp add: SAMPLE_BOOKS_def)
  have v: "(\<forall>req\<in>set ?reqs. p_title req \<notin> {None, Some []} \<and> p_author req \<notin> {None, Some []})
      \<and> Max (insert 0 (book_id ` set SAMPLE_BOOKS)) + int (length ?reqs) \<le> 2 ^ 53"
    unfolding m by simp
  have i: "map (\<lambda>i. (2::int) + 1 + int i) [0..<length ?reqs] = [3, 4]"
    by (simp add: upt_rec)
  have d: "(1::nat) < length SAMPLE_BOOKS \<and> distinct (map book_id SAMPLE_BOOKS)
        \<and> (\<forall>b\<in>set SAMPLE_BOOKS. 0 < book_id b)
        \<and> book_id (SAMPLE_BOOKS ! 1) = Max (insert 0 (book_id ` set SAMPLE_BOOKS))
        \<and> book_id (SAMPLE_BOOKS ! 1) \<le> 2 ^ 53
        \<and> p_title ?req \<notin> {None, Some []} \<and> p_author ?req \<notin> {None, Some []}"
    by (simp add: SAMPLE_BOOKS_def)
  have k: "book_id (SAMPLE_BOOKS ! 1) = 2"
    by (simp add: SAMPLE_BOOKS_def)
  have r: "take 1 SAMPLE_BOOKS @ drop (Suc 1) SAMPLE_BOOKS = [SAMPLE_BOOKS ! 0]"
    by (simp add: SAMPLE_BOOKS_def)
  have n: "Max (insert 0 (book_id ` set [SAMPLE_BOOKS ! 0])) + 1 = 2"
    by (simp add: SAMPLE_BOOKS_def)
  have b: "Max (insert 0 (book_id ` set ?big)) = 2 ^ 53
      \<and> p_title ?req \<notin> {None, Some []} \<and> p_author ?req \<notin> {None, Some []}"
    by simp
  have p: "(2::int) ^ 53 = 9007199254740992"
    by simp
  have q: "Finite (of_int 2) = Finite 2"
    by simp
  from create_ids [OF h, of ?reqs 1 ?req, THEN conjunct1, THEN mp, OF v]
  have one: "\<exists>new w'.
      serve (map PostBooks ?reqs) ?w = (map (\<lambda>b. \<lparr>status = 201, body = BookBody b\<rparr>) new, w')
    \<and> books_file w' = Some (Json (Books (SAMPLE_BOOKS @ new)))
    \<and> map book_id new = [3, 4]"
    unfolding m i by auto
  from create_ids [OF h, of ?reqs 1 ?req, THEN conjunct2, THEN conjunct1, THEN mp, OF d]
  have two: "\<exists>w1 book w2.
      delete_book (Finite 2) ?w = (\<lparr>status = 200, body = DeletedBody (SAMPLE_BOOKS ! 1)\<rparr>, w1)
    \<and> books_file w1 = Some (Json (Books [SAMPLE_BOOKS ! 0]))
    \<and> post_books ?req w1 = (\<lparr>status = 201, body = BookBody book\<rparr>, w2)
    \<and> book_id book = 2"
    unfolding k r n q by auto
  from create_ids [OF hb, of ?reqs 0 ?req, THEN conjunct2, THEN conjunct2, THEN mp, OF b]
  have three: "\<exists>book w'.
      post_books ?req ?wb = (\<lparr>status = 201, body = BookBody book\<rparr>, w')
    \<and> book_id book = 9007199254740992"
    unfolding p by auto
  from one two three show ?thesis
    by (intro conjI)
qed

text \<open>
  Claim C1 as stated asks more: that after deleting the record with the maximum id, the next id
  is strictly greater than every id assigned before.  From the empty collection, two creates
  assign 1 and 2; after \<^verbatim>\<open>DELETE /books/2\<close> the next create assigns 2 again.
\<close>

theorem id_reused_after_delete_counterexample:
  "fst (serve
     [PostBooks \<lparr>p_title = Some ''A'', p_author = Some ''X'', p_available = None\<rparr>,
      PostBooks \<lparr>p_title = Some ''B'', p_author = Some ''Y'', p_available = None\<rparr>,
      DeleteBook (Finite 2),
      PostBooks \<lparr>p_title = Some ''C'', p_author = Some ''Z'', p_available = None\<rparr>]
     (start (Some (Json (Books []))) []))
   = [\<lparr>status = 201,
       body = BookBody \<lparr>book_id = 1, title = ''A'', author = ''X'', available = True\<rparr>\<rparr>,
      \<lparr>status = 201,
       body = BookBody \<lparr>book_id = 2, title = ''B'', author = ''Y'', available = True\<rparr>\<rparr>,
      \<lparr>status = 200,
       body = DeletedBody \<lparr>book_id = 2, title = ''B'', author = ''Y'', available = True\<rparr>\<rparr>,
      \<lparr>status = 201,
       body = BookBody \<lparr>book_id = 2, title = ''C'', author = ''Z'', available = True\<rparr>\<rparr>]"
  by (simp add: app_def post_books_def delete_book_def start_def js_not_def
      readBooksFile_def fs_readFile_def fs_attempt_def JSON_parse_def
      writeBooksFile_def enqueueWrite_def write_task_def fs_writeFile_def fs_rename_def
      JSON_stringify_def newBook_def maxId_def available_or_true_def
      Number_isInteger_def le_zero_def id_eq_def splice1_def Let_def)

section \<open>Saving and loading\<close>

text \<open>
  Claim C2.  Saving a collection and then loading yields the same records in the same order.
  With no storage failure the save succeeds, whatever the files and the queue held before; and
  whenever a save has succeeded and the read that follows does not fail, the load returns
  exactly the collection that was saved.
\<close>

theorem save_load_roundtrip:
  "(io w = [] \<longrightarrow> fst (writeBooksFile books w) = Inr ())
 \<and> (\<forall>w1. writeBooksFile books w = (Inr (), w1) \<and> (io w1 = [] \<or> (\<exists>rs. io w1 = None # rs))
      \<longrightarrow> fst (readBooksFile w1) = Inr (Books books))"
proof (intro conjI impI allI)
  assume "io w = []"
  then show "fst (writeBooksFile books w) = Inr ()"
    by (simp add: writeBooksFile_ok)
next
  fix w1
  assume a: "writeBooksFile books w = (Inr (), w1) \<and> (io w1 = [] \<or> (\<exists>rs. io w1 = None # rs))"
  then have "books_file w1 = Some (Json (Books books))"
    using writeBooksFile_Inr [of books w "()" w1] by simp
  with a show "fst (readBooksFile w1) = Inr (Books books)"
    using readBooksFile_read_ok [of w1 "Json (Books books)"] by simp
qed

theorem save_load_roundtrip_witness:
  "fst (writeBooksFile SAMPLE_BOOKS
         \<lparr>books_file = Some (Garbage ''{''), tmp_file = None, writeQueue = Inl (FsError EIO),
          io = [], trace = []\<rparr>) = Inr ()
 \<and> fst (readBooksFile (snd (writeBooksFile SAMPLE_BOOKS
         \<lparr>books_file = Some (Garbage ''{''), tmp_file = None, writeQueue = Inl (FsError EIO),
          io = [], trace = []\<rparr>))) = Inr (Books SAMPLE_BOOKS)"
proof -
  let ?w = "\<lparr>books_file = Some (Garbage ''{''), tmp_file = None, writeQueue = Inl (FsError EIO),
          io = [], trace = []\<rparr>"
  have io: "io ?w = []" by simp
  have w: "writeBooksFile SAMPLE_BOOKS ?w = (Inr (), snd (writeBooksFile SAMPLE_BOOKS ?w))"
    by (simp add: writeBooksFile_ok)
  have "io (snd (writeBooksFile SAMPLE_BOOKS ?w)) = []"
    by (simp add: writeBooksFile_ok)
  with io w show ?thesis
    using save_load_roundtrip [of ?w SAMPLE_BOOKS] by blast
qed

section \<open>A failing write\<close>

text \<open>
  Claim C4 says that a failing storage action is attempted once and reported as a 5xx error.
  The code runs a failed write a second time when the queue was fulfilled:
  \<^verbatim>\<open>writeQueue.then(() => fn()).catch(() => fn())\<close> catches the rejection of \<open>fn\<close> itself.
  Here \<^verbatim>\<open>POST /books\<close> meets a \<^verbatim>\<open>writeFile\<close> that fails with EIO.  When only the first attempt
  fails, the trace shows two calls of \<^verbatim>\<open>writeFile\<close> and the client gets 201, the failure
  reported to nobody; when both fail, the trace shows the two calls and the client gets 500.
\<close>

theorem failed_write_runs_twice:
  "app (PostBooks \<lparr>p_title = Some ''X'', p_author = Some ''Y'', p_available = None\<rparr>)
     (start (Some (Json (Books []))) [None, Some EIO])
   = (\<lparr>status = 201,
       body = BookBody \<lparr>book_id = 1, title = ''X'', author = ''Y'', available = True\<rparr>\<rparr>,
      \<lparr>books_file = Some (Json (Books
          [\<lparr>book_id = 1, title = ''X'', author = ''Y'', available = True\<rparr>])),
       tmp_file = None, writeQueue = Inr (), io = [],
       trace = [ReadFile,
         WriteFile (Json (Books [\<lparr>book_id = 1, title = ''X'', author = ''Y'', available = True\<rparr>])),
         WriteFile (Json (Books [\<lparr>book_id = 1, title = ''X'', author = ''Y'', available = True\<rparr>])),
         Rename]\<rparr>)
 \<and> app (PostBooks \<lparr>p_title = Some ''X'', p_author = Some ''Y'', p_available = None\<rparr>)
     (start (Some (Json (Books []))) [None, Some EIO, Some EIO])
   = (\<lparr>status = 500, body = ErrorBody ''Internal server error''\<rparr>,
      \<lparr>books_file = Some (Json (Books [])),
       tmp_file = None, writeQueue = Inl (FsError EIO), io = [],
       trace = [ReadFile,
         WriteFile (Json (Books [\<lparr>book_id = 1, title = ''X'', author = ''Y'', available = True\<rparr>])),
         WriteFile (Json (Books [\<lparr>book_id = 1, title = ''X'', author = ''Y'', available = True\<rparr>]))]\<rparr>)"
  by (simp add: eval_defs)

section \<open>The invariant of the collection\<close>

text \<open>
  Claim C5 says that every operation keeps titles and authors non-empty.  The code checks that
  on create only: \<^verbatim>\<open>PUT /books/1\<close> with the title \<^verbatim>\<open>""\<close> answers 200 and stores the empty title,
  while \<^verbatim>\<open>POST /books\<close> with the same title answers 400 and stores nothing.
\<close>

theorem update_stores_empty_title:
  "app (PutBook (Finite 1) \<lparr>p_title = Some '''', p_author = None, p_available = None\<rparr>)
     (start (Some (Json (Books SAMPLE_BOOKS))) [])
   = (\<lparr>status = 200,
       body = BookBody \<lparr>book_id = 1, title = '''', author = ''James Clear'', available = True\<rparr>\<rparr>,
      \<lparr>books_file = Some (Json (Books
          [\<lparr>book_id = 1, title = '''', author = ''James Clear'', available = True\<rparr>,
           \<lparr>book_id = 2, title = ''Deep Work'', author = ''Cal Newport'', available = False\<rparr>])),
       tmp_file = None, writeQueue = Inr (), io = [],
       trace = [ReadFile,
         WriteFile (Json (Books
          [\<lparr>book_id = 1, title = '''', author = ''James Clear'', available = True\<rparr>,
           \<lparr>book_id = 2, title = ''Deep Work'', author = ''Cal Newport'', available = False\<rparr>])),
         Rename]\<rparr>)
 \<and> app (PostBooks \<lparr>p_title = Some '''', p_author = Some ''James Clear'', p_available = None\<rparr>)
     (start (Some (Json (Books SAMPLE_BOOKS))) [])
   = (\<lparr>status = 400, body = ErrorBody ''title and author are required''\<rparr>,
      start (Some (Json (Books SAMPLE_BOOKS))) [])"
  by (simp add: eval_defs)

section \<open>A file that is not a collection\<close>

text \<open>
  Claim C7, as the code has it.  When the file holds text that is not JSON and the read does
  not fail: \<^verbatim>\<open>readBooksFile\<close> throws the SyntaxError of \<^verbatim>\<open>JSON.parse\<close> after one \<^verbatim>\<open>readFile\<close> and
  no write, so the file is neither seeded nor repaired; every handler that loads answers 500
  with the message \<^verbatim>\<open>Books file contains invalid JSON\<close>, which is not the message of a
  file-system error or of a TypeError; and a missing file is another case: it is seeded and
  the load returns the sample records.
\<close>

theorem corrupt_file:
  assumes "books_file w = Some (Garbage s)" and "io w = []"
  shows "readBooksFile w = (Inl SyntaxError, w\<lparr>trace := trace w @ [ReadFile]\<rparr>)
    \<and> (\<forall>r. r = GetBooks \<or> r = GetBooksAvailable
          \<or> (\<exists>req. r = PostBooks req \<and> p_title req \<notin> {None, Some []}
                \<and> p_author req \<notin> {None, Some []})
          \<or> (\<exists>k req. r = PutBook (Finite (of_int k)) req \<and> 0 < k
                \<and> (p_title req \<noteq> None \<or> p_author req \<noteq> None \<or> p_available req \<noteq> None))
          \<or> (\<exists>k. r = DeleteBook (Finite (of_int k)) \<and> 0 < k)
        \<longrightarrow> app r w = (\<lparr>status = 500, body = ErrorBody ''Books file contains invalid JSON''\<rparr>,
                       w\<lparr>trace := trace w @ [ReadFile]\<rparr>))
    \<and> error_handler SyntaxError \<noteq> error_handler TypeError
    \<and> (\<forall>c. error_handler SyntaxError \<noteq> error_handler (FsError c))
    \<and> (\<forall>w0. books_file w0 = None \<and> io w0 = []
          \<longrightarrow> fst (readBooksFile w0) = Inr (Books SAMPLE_BOOKS))"
proof -
  have rd: "readBooksFile w = (Inl SyntaxError, w\<lparr>trace := trace w @ [ReadFile]\<rparr>)"
    using assms
    by (simp add: readBooksFile_def fs_readFile_def fs_attempt_def JSON_parse_def read_catch_def)
  have valid: "\<not> (\<not> Number_isInteger (Finite (of_int k)) \<or> le_zero (Finite (of_int k)))"
    if "0 < k" for k :: int
    using that valid_id_iff [of "Finite (of_int k)"] by blast
  have handlers: "app r w = (\<lparr>status = 500, body = ErrorBody ''Books file contains invalid JSON''\<rparr>,
                       w\<lparr>trace := trace w @ [ReadFile]\<rparr>)"
    if "r = GetBooks \<or> r = GetBooksAvailable
          \<or> (\<exists>req. r = PostBooks req \<and> p_title req \<notin> {None, Some []}
                \<and> p_author req \<notin> {None, Some []})
          \<or> (\<exists>k req. r = PutBook (Finite (of_int k)) req \<and> 0 < k
                \<and> (p_title req \<noteq> None \<or> p_author req \<noteq> None \<or> p_available req \<noteq> None))
          \<or> (\<exists>k. r = DeleteBook (Finite (of_int k)) \<and> 0 < k)" for r
    using that valid
    by (auto simp add: app_def get_books_def get_books_available_def post_books_def
          put_book_def delete_book_def rd error_handler_def js_not_iff)
  have msgs: "error_handler SyntaxError \<noteq> error_handler TypeError"
    "\<forall>c. error_handler SyntaxError \<noteq> error_handler (FsError c)"
    by (simp_all add: error_handler_def)
  have missing: "\<forall>w0. books_file w0 = None \<and> io w0 = []
          \<longrightarrow> fst (readBooksFile w0) = Inr (Books SAMPLE_BOOKS)"
    by (simp add: readBooksFile_missing)
  from rd handlers msgs missing show ?thesis by blast
qed

theorem corrupt_file_witness:
  "readBooksFile (start (Some (Garbage ''[{'')) [])
     = (Inl SyntaxError, (start (Some (Garbage ''[{'')) [])\<lparr>trace := [ReadFile]\<rparr>)
 \<and> app GetBooks (start (Some (Garbage ''[{'')) [])
     = (\<lparr>status = 500, body = ErrorBody ''Books file contains invalid JSON''\<rparr>,
        (start (Some (Garbage ''[{'')) [])\<lparr>trace := [ReadFile]\<rparr>)
 \<and> app (DeleteBook (Finite 1)) (start (Some (Garbage ''[{'')) [])
     = (\<lparr>status = 500, body = ErrorBody ''Books file contains invalid JSON''\<rparr>,
        (start (Some (Garbage ''[{'')) [])\<lparr>trace := [ReadFile]\<rparr>)"
proof -
  let ?w = "start (Some (Garbage ''[{'')) []"
  have h: "books_file ?w = Some (Garbage ''[{'')" "io ?w = []"
    by (simp_all add: start_def)
  have t: "trace ?w = []" by (simp add: start_def)
  have d: "\<exists>k. DeleteBook (Finite 1) = DeleteBook (Finite (of_int k)) \<and> 0 < k"
    by (intro exI [of _ 1]) simp
  from corrupt_file [OF h] d show ?thesis
    by (simp add: t)
qed

text \<open>
  Claim C7 as stated covers every file that is not a collection of book records.  The code
  only asks \<^verbatim>\<open>JSON.parse\<close>: the file \<^verbatim>\<open>{}\<close> is valid JSON and no collection, the load returns
  the object, \<^verbatim>\<open>GET /books\<close> answers 200 with it, and the file stays as it is.
\<close>

theorem valid_json_of_another_shape_counterexample:
  "fst (readBooksFile (start (Some (Json (Other (JObj [])))) [])) = Inr (Other (JObj []))
 \<and> fst (get_books (start (Some (Json (Other (JObj [])))) []))
      = \<lparr>status = 200, body = JsonBody (JObj [])\<rparr>
 \<and> books_file (snd (get_books (start (Some (Json (Other (JObj [])))) [])))
      = Some (Json (Other (JObj [])))"
  by (simp add: eval_defs)

section \<open>Partial update\<close>

text \<open>
  Claim C8.  Whenever \<^verbatim>\<open>PUT /books/:id\<close> answers 200, the collection \<open>books\<close> was loaded, the
  record updated is the first one with that id, and the file then holds a collection of the
  same length in which every other record is unchanged at its position; the updated record
  keeps its id, takes the title, the author and the availability the payload supplies and
  keeps the ones it does not supply, the supplied availability coerced by \<^verbatim>\<open>Boolean\<close>; and the
  response carries that record.
\<close>

theorem put_book_partial_update:
  assumes "put_book n req w = (res, w')" and "status res = 200"
  shows "\<exists>books w1 idx books'.
      readBooksFile w = (Inr (Books books), w1)
    \<and> idx < length books \<and> id_eq n (books ! idx) \<and> (\<forall>j<idx. \<not> id_eq n (books ! j))
    \<and> books_file w' = Some (Json (Books books'))
    \<and> length books' = length books
    \<and> (\<forall>j<length books. j \<noteq> idx \<longrightarrow> books' ! j = books ! j)
    \<and> book_id (books' ! idx) = book_id (books ! idx)
    \<and> title (books' ! idx) = (case p_title req of None \<Rightarrow> title (books ! idx) | Some t \<Rightarrow> t)
    \<and> author (books' ! idx) = (case p_author req of None \<Rightarrow> author (books ! idx) | Some a \<Rightarrow> a)
    \<and> available (books' ! idx) =
         (case p_available req of None \<Rightarrow> available (books ! idx) | Some v \<Rightarrow> js_Boolean v)
    \<and> res = \<lparr>status = 200, body = BookBody (books' ! idx)\<rparr>"
proof -
  from assms obtain books w1 idx u where
    rd: "readBooksFile w = (Inr (Books books), w1)" and
    fi: "findIndex (id_eq n) books = Some idx" and
    wr: "writeBooksFile (books[idx := apply_update req (books ! idx)]) w1 = (Inr u, w')" and
    res: "res = \<lparr>status = 200, body = BookBody (apply_update req (books ! idx))\<rparr>"
    by (auto simp: put_book_def Let_def error_handler_def
          split: if_splits prod.splits sum.splits jsvalue.splits option.splits)
  let ?new = "apply_update req (books ! idx)"
  let ?books' = "books[idx := ?new]"
  from findIndex_Some [OF fi]
  have idx: "idx < length books" "id_eq n (books ! idx)" "\<forall>j<idx. \<not> id_eq n (books ! j)"
    by simp_all
  have saved: "books_file w' = Some (Json (Books ?books'))"
    using writeBooksFile_Inr [OF wr] .
  have new: "?books' ! idx = ?new" using idx(1) by simp
  have fields:
    "book_id ?new = book_id (books ! idx)"
    "title ?new = (case p_title req of None \<Rightarrow> title (books ! idx) | Some t \<Rightarrow> t)"
    "author ?new = (case p_author req of None \<Rightarrow> author (books ! idx) | Some a \<Rightarrow> a)"
    "available ?new =
       (case p_available req of None \<Rightarrow> available (books ! idx) | Some v \<Rightarrow> js_Boolean v)"
    by (simp_all add: apply_update_def Let_def split: option.splits)
  have others: "\<forall>j<length books. j \<noteq> idx \<longrightarrow> ?books' ! j = books ! j"
    by simp
  show ?thesis
    using rd idx saved new fields others res
    by (intro exI [of _ books] exI [of _ w1] exI [of _ idx] exI [of _ ?books']) simp
qed

theorem put_book_partial_update_witness:
  "\<exists>books w1 idx books'.
      readBooksFile (start (Some (Json (Books SAMPLE_BOOKS))) []) = (Inr (Books books), w1)
    \<and> idx < length books \<and> id_eq (Finite 2) (books ! idx)
    \<and> books_file (snd (put_book (Finite 2)
          \<lparr>p_title = None, p_author = None, p_available = Some (JNum 1)\<rparr>
          (start (Some (Json (Books SAMPLE_BOOKS))) []))) = Some (Json (Books books'))
    \<and> length books' = length books
    \<and> title (books' ! idx) = title (books ! idx)
    \<and> author (books' ! idx) = author (books ! idx)
    \<and> available (books' ! idx) = True"
proof -
  let ?req = "\<lparr>p_title = None, p_author = None, p_available = Some (JNum 1)\<rparr>"
  let ?w = "start (Some (Json (Books SAMPLE_BOOKS))) []"
  have run: "put_book (Finite 2) ?req ?w
      = (fst (put_book (Finite 2) ?req ?w), snd (put_book (Finite 2) ?req ?w))"
    by simp
  have ok: "status (fst (put_book (Finite 2) ?req ?w)) = 200"
    by (simp add: eval_defs)
  from put_book_partial_update [OF run ok] show ?thesis
    by (auto simp: js_Boolean_def)
qed

section \<open>Create\<close>

text \<open>
  Claim C9.  When the title or the author is missing or empty, create answers 400 and leaves
  the state as it was: no file-system call is made.  Otherwise, with no storage failure and a
  file that holds the collection \<open>books\<close> (or no file, and \<open>books\<close> the sample records), it
  answers 201 with the new record, and the file holds \<open>books\<close> with that record appended; the
  record has the title and the author of the payload, the availability of the payload when
  that is a boolean and \<open>True\<close> otherwise, and the id \<open>max (existing ids, 0) + 1\<close>, a sum of
  doubles, which is the sum of the integers below \<open>2^53\<close>.
\<close>

theorem post_books_create:
  "((p_title req \<in> {None, Some []} \<or> p_author req \<in> {None, Some []}) \<longrightarrow>
      post_books req w = (\<lparr>status = 400, body = ErrorBody ''title and author are required''\<rparr>, w))
 \<and> (p_title req = Some t \<and> t \<noteq> [] \<and> p_author req = Some a \<and> a \<noteq> [] \<and> io w = []
      \<and> (books_file w = Some (Json (Books books)) \<or> books_file w = None \<and> books = SAMPLE_BOOKS)
    \<longrightarrow> (\<exists>book w'.
          post_books req w = (\<lparr>status = 201, body = BookBody book\<rparr>, w')
        \<and> books_file w' = Some (Json (Books (books @ [book])))
        \<and> title book = t \<and> author book = a
        \<and> available book = (case p_available req of Some (JBool b) \<Rightarrow> b | _ \<Rightarrow> True)
        \<and> book_id book = js_plus (Max (insert 0 (book_id ` set books))) 1
        \<and> (Max (insert 0 (book_id ` set books)) < 2 ^ 53 \<longrightarrow>
             book_id book = Max (insert 0 (book_id ` set books)) + 1)))"
proof (intro conjI impI)
  assume "p_title req \<in> {None, Some []} \<or> p_author req \<in> {None, Some []}"
  then have "js_not (p_title req) \<or> js_not (p_author req)"
    by (simp add: js_not_iff)
  then show "post_books req w
      = (\<lparr>status = 400, body = ErrorBody ''title and author are required''\<rparr>, w)"
    by (simp add: post_books_def)
next
  assume a: "p_title req = Some t \<and> t \<noteq> [] \<and> p_author req = Some a \<and> a \<noteq> [] \<and> io w = []
      \<and> (books_file w = Some (Json (Books books)) \<or> books_file w = None \<and> books = SAMPLE_BOOKS)"
  then have v: "\<not> js_not (p_title req)" "\<not> js_not (p_author req)"
    by (simp_all add: js_not_def)
  let ?b = "newBook req books"
  have fields: "title ?b = t" "author ?b = a"
    "available ?b = (case p_available req of Some (JBool b) \<Rightarrow> b | _ \<Rightarrow> True)"
    using a by (simp_all add: newBook_def available_or_true_def)
  have new_id: "book_id ?b = js_plus (Max (insert 0 (book_id ` set books))) 1"
    by (simp only: newBook_id maxId_Max)
  have exact: "Max (insert 0 (book_id ` set books)) < 2 ^ 53 \<longrightarrow>
      book_id ?b = Max (insert 0 (book_id ` set books)) + 1"
    using newBook_id_exact [of books req] by (simp only: maxId_Max) blast
  from a have "books_file w = Some (Json (Books books)) \<or> books_file w = None \<and> books = SAMPLE_BOOKS"
    by simp
  then have "\<exists>w'. post_books req w = (\<lparr>status = 201, body = BookBody ?b\<rparr>, w')
        \<and> books_file w' = Some (Json (Books (books @ [?b])))"
  proof
    assume "books_file w = Some (Json (Books books))"
    with v a show ?thesis by (simp add: post_books_present)
  next
    assume "books_file w = None \<and> books = SAMPLE_BOOKS"
    with v a show ?thesis by (simp add: post_books_missing)
  qed
  with fields new_id exact show "\<exists>book w'.
          post_books req w = (\<lparr>status = 201, body = BookBody book\<rparr>, w')
        \<and> books_file w' = Some (Json (Books (books @ [book])))
        \<and> title book = t \<and> author book = a
        \<and> available book = (case p_available req of Some (JBool b) \<Rightarrow> b | _ \<Rightarrow> True)
        \<and> book_id book = js_plus (Max (insert 0 (book_id ` set books))) 1
        \<and> (Max (insert 0 (book_id ` set books)) < 2 ^ 53 \<longrightarrow>
             book_id book = Max (insert 0 (book_id ` set books)) + 1)"
    by blast
qed

theorem post_books_create_witness:
  "post_books \<lparr>p_title = Some '''', p_author = Some ''Y'', p_available = None\<rparr> (start None [])
     = (\<lparr>status = 400, body = ErrorBody ''title and author are required''\<rparr>, start None [])
 \<and> (\<exists>book w'.
        post_books \<lparr>p_title = Some ''X'', p_author = Some ''Y'', p_available = Some (JStr ''no'')\<rparr>
          (start None []) = (\<lparr>status = 201, body = BookBody book\<rparr>, w')
      \<and> books_file w' = Some (Json (Books (SAMPLE_BOOKS @ [book])))
      \<and> title book = ''X'' \<and> author book = ''Y'' \<and> available book = True \<and> book_id book = 3)"
proof -
  let ?bad = "\<lparr>p_title = Some '''', p_author = Some ''Y'', p_available = None\<rparr>"
  let ?good = "\<lparr>p_title = Some ''X'', p_author = Some ''Y'', p_available = Some (JStr ''no'')\<rparr>"
  let ?w = "start None []"
  have b: "p_title ?bad \<in> {None, Some []} \<or> p_author ?bad \<in> {None, Some []}" by simp
  have g: "p_title ?good = Some ''X'' \<and> ''X'' \<noteq> [] \<and> p_author ?good = Some ''Y'' \<and> ''Y'' \<noteq> []
      \<and> io ?w = []
      \<and> (books_file ?w = Some (Json (Books SAMPLE_BOOKS))
          \<or> books_file ?w = None \<and> SAMPLE_BOOKS = SAMPLE_BOOKS)"
    by (simp add: start_def)
  have m: "Max (insert 0 (book_id ` set SAMPLE_BOOKS)) = 2"
    by (simp add: SAMPLE_BOOKS_def)
  from post_books_create [of ?bad ?w] b
  have one: "post_books ?bad ?w
     = (\<lparr>status = 400, body = ErrorBody ''title and author are required''\<rparr>, ?w)"
    by blast
  from post_books_create [of ?good ?w "''X''" "''Y''" SAMPLE_BOOKS] g
  have two: "\<exists>book w'.
          post_books ?good ?w = (\<lparr>status = 201, body = BookBody book\<rparr>, w')
        \<and> books_file w' = Some (Json (Books (SAMPLE_BOOKS @ [book])))
        \<and> title book = ''X'' \<and> author book = ''Y''
        \<and> available book = (case p_available ?good of Some (JBool b) \<Rightarrow> b | _ \<Rightarrow> True)
        \<and> book_id book = js_plus (Max (insert 0 (book_id ` set SAMPLE_BOOKS))) 1"
    by blast
  from one two show ?thesis
    unfolding m by simp
qed

section \<open>Errors on the id\<close>




section \<open>Seeding and object identity\<close>

lemma array_value_new_array:
  "new_array bs h = (a, h1) \<Longrightarrow> array_value h1 a = bs"
  by (auto simp: new_array_def array_value_def nth_append intro: nth_equalityI)

lemma new_array_fresh:
  assumes "new_array bs h = (a, h1)"
  shows "a = length (arrs h)" "length (arrs h1) = Suc (length (arrs h))"
    "length (recs h1) = length (recs h) + length bs"
    "arrs h1 ! a = [length (recs h)..<length (recs h) + length bs]"
    "\<forall>b<length (arrs h). arrs h1 ! b = arrs h ! b"
    "\<forall>r<length (recs h). recs h1 ! r = recs h ! r"
  using assms by (auto simp: new_array_def nth_append)

lemma new_array_keeps:
  assumes "new_array bs h = (a, h1)" "heap_ok h" "b < length (arrs h)"
  shows "array_value h1 b = array_value h b"
proof -
  from assms(2,3) have "\<forall>r\<in>set (arrs h ! b). r < length (recs h)"
    by (auto simp: heap_ok_def list_all_iff)
  then show ?thesis
    using new_array_fresh(5,6) [OF assms(1)] assms(3)
    by (simp add: array_value_def)
qed

lemma writeBooksFile_ref_ok:
  assumes "io w = []"
  shows "writeBooksFile_ref a h w =
    (Inr (), w\<lparr>books_file := Some (Json (Books (array_value h a))), tmp_file := None,
              writeQueue := Inr (),
              trace := trace w @ [WriteFile (Json (Books (array_value h a))), Rename]\<rparr>)"
  using writeBooksFile_ok [OF assms, of "array_value h a"]
  by (simp add: writeBooksFile_ref_def writeBooksFile_def)

lemma readBooksFile_ref_missing:
  assumes "io w = []" and "books_file w = None"
    and "array_value h SAMPLE_BOOKS_ref = SAMPLE_BOOKS"
  shows "readBooksFile_ref h w =
    (Inr (Ref (length (arrs h))), snd (new_array SAMPLE_BOOKS h),
     w\<lparr>books_file := Some (Json (Books SAMPLE_BOOKS)), tmp_file := None, writeQueue := Inr (),
       trace := trace w @ [ReadFile, WriteFile (Json (Books SAMPLE_BOOKS)), Rename]\<rparr>)"
  using assms
  by (simp add: readBooksFile_ref_def fs_readFile_def fs_attempt_def read_catch_ref_def
        writeBooksFile_ref_ok new_array_def)

lemma readBooksFile_ref_present:
  assumes "io w = []" and "books_file w = Some (Json (Books bs))"
  shows "readBooksFile_ref h w =
    (Inr (Ref (length (arrs h))), snd (new_array bs h), w\<lparr>trace := trace w @ [ReadFile]\<rparr>)"
  using assms
  by (simp add: readBooksFile_ref_def fs_readFile_def fs_attempt_def JSON_parse_def new_array_def)

lemma touches_only_keeps:
  assumes "touches_only a h h'" and "b < length (arrs h)" and "b \<noteq> a"
    and "set (arrs h ! b) \<inter> set (arrs h ! a) = {}"
    and "\<forall>r\<in>set (arrs h ! b). r < length (recs h)"
  shows "array_value h' b = array_value h b"
proof -
  from assms(1,2,3) have arr: "arrs h' ! b = arrs h ! b"
    by (auto simp: touches_only_def)
  have "recs h' ! r = recs h ! r" if "r \<in> set (arrs h ! b)" for r
  proof -
    from that assms(4) have "r \<notin> set (arrs h ! a)" by auto
    moreover from that assms(5) have "r \<in> {..<length (recs h)}" by simp
    ultimately show ?thesis
      using assms(1) unfolding touches_only_def by blast
  qed
  then show ?thesis
    by (simp add: array_value_def arr)
qed

lemma touches_only_record_update:
  "r \<in> set (arrs h ! a) \<Longrightarrow> touches_only a h (h\<lparr>recs := (recs h)[r := b]\<rparr>)"
  by (auto simp: touches_only_def) (metis nth_list_update_neq)

text \<open>
  The store with references returns what the store on values returns, as long as the constant
  holds the sample records.
\<close>

lemma readBooksFile_ref_refines:
  assumes "array_value h SAMPLE_BOOKS_ref = SAMPLE_BOOKS"
    and "readBooksFile_ref h w = (res, h1, w1)"
  shows "readBooksFile w = (map_sum (\<lambda>e. e) (value_of h1) res, w1)"
proof -
  have c: "read_catch err w0 = (map_sum (\<lambda>e. e) (value_of h') r, w')"
    if "read_catch_ref err h w0 = (r, h', w')" for err w0 r h' w'
    using that assms(1)
    by (auto simp: read_catch_def read_catch_ref_def writeBooksFile_ref_def writeBooksFile_def
          value_of_def array_value_new_array split: if_splits prod.splits sum.splits)
  show ?thesis
    using assms(2)
    by (auto simp: readBooksFile_def readBooksFile_ref_def value_of_def array_value_new_array c
          split: prod.splits sum.splits jsvalue.splits)
qed

text \<open>
  Claim C6.  With no file, no storage failure and a heap in which the constant holds the
  sample records: the load creates the file with the two sample records (ids 1 and 2) and
  returns a new array of new records with the same values, none of them an object of the
  constant.  Whatever the caller then does to the returned array and its records, the constant
  still holds the sample records, a second load returns the sample records, and so does a load
  that finds the file missing again.
\<close>

theorem first_load_seeds:
  assumes "books_file w = None" and "io w = []"
    and "heap_ok h" and "array_value h SAMPLE_BOOKS_ref = SAMPLE_BOOKS"
  shows "\<exists>a h1 w1.
      readBooksFile_ref h w = (Inr (Ref a), h1, w1)
    \<and> books_file w1 = Some (Json (Books SAMPLE_BOOKS))
    \<and> array_value h1 a = SAMPLE_BOOKS
    \<and> length SAMPLE_BOOKS = 2 \<and> map book_id SAMPLE_BOOKS = [1, 2]
    \<and> a \<noteq> SAMPLE_BOOKS_ref
    \<and> set (arrs h1 ! a) \<inter> set (arrs h1 ! SAMPLE_BOOKS_ref) = {}
    \<and> (\<forall>h'. touches_only a h1 h' \<longrightarrow>
          array_value h' SAMPLE_BOOKS_ref = SAMPLE_BOOKS
        \<and> (\<exists>a2 h2 w2. readBooksFile_ref h' w1 = (Inr (Ref a2), h2, w2)
              \<and> array_value h2 a2 = SAMPLE_BOOKS)
        \<and> (\<forall>w'. books_file w' = None \<and> io w' = [] \<longrightarrow>
              (\<exists>a3 h3 w3. readBooksFile_ref h' w' = (Inr (Ref a3), h3, w3)
                \<and> array_value h3 a3 = SAMPLE_BOOKS
                \<and> books_file w3 = Some (Json (Books SAMPLE_BOOKS)))))"
proof -
  let ?a = "length (arrs h)"
  let ?h1 = "snd (new_array SAMPLE_BOOKS h)"
  let ?w1 = "w\<lparr>books_file := Some (Json (Books SAMPLE_BOOKS)), tmp_file := None,
       writeQueue := Inr (),
       trace := trace w @ [ReadFile, WriteFile (Json (Books SAMPLE_BOOKS)), Rename]\<rparr>"
  have na: "new_array SAMPLE_BOOKS h = (?a, ?h1)"
    by (simp add: new_array_def)
  have rd: "readBooksFile_ref h w = (Inr (Ref ?a), ?h1, ?w1)"
    using readBooksFile_ref_missing [OF assms(2,1,4)] .
  have val: "array_value ?h1 ?a = SAMPLE_BOOKS"
    using na by (rule array_value_new_array)
  have s0: "SAMPLE_BOOKS_ref < ?a"
    using assms(3) by (simp add: heap_ok_def)
  have old: "\<forall>r\<in>set (arrs h ! SAMPLE_BOOKS_ref). r < length (recs h)"
    using assms(3) s0 by (auto simp: heap_ok_def list_all_iff)
  have same: "arrs ?h1 ! SAMPLE_BOOKS_ref = arrs h ! SAMPLE_BOOKS_ref"
    using new_array_fresh(5) [OF na] s0 by simp
  have new: "arrs ?h1 ! ?a = [length (recs h)..<length (recs h) + length SAMPLE_BOOKS]"
    using new_array_fresh(4) [OF na] .
  have disj: "set (arrs ?h1 ! ?a) \<inter> set (arrs ?h1 ! SAMPLE_BOOKS_ref) = {}"
    unfolding same new using old by auto
  have sample1: "array_value ?h1 SAMPLE_BOOKS_ref = SAMPLE_BOOKS"
    using new_array_keeps [OF na assms(3) s0] assms(4) by simp
  have after: "array_value h' SAMPLE_BOOKS_ref = SAMPLE_BOOKS
        \<and> (\<exists>a2 h2 w2. readBooksFile_ref h' ?w1 = (Inr (Ref a2), h2, w2)
              \<and> array_value h2 a2 = SAMPLE_BOOKS)
        \<and> (\<forall>w'. books_file w' = None \<and> io w' = [] \<longrightarrow>
              (\<exists>a3 h3 w3. readBooksFile_ref h' w' = (Inr (Ref a3), h3, w3)
                \<and> array_value h3 a3 = SAMPLE_BOOKS
                \<and> books_file w3 = Some (Json (Books SAMPLE_BOOKS))))"
    if t: "touches_only ?a ?h1 h'" for h'
  proof -
    have len: "SAMPLE_BOOKS_ref < length (arrs ?h1)"
      using s0 new_array_fresh(2) [OF na] by simp
    have inrange: "\<forall>r\<in>set (arrs ?h1 ! SAMPLE_BOOKS_ref). r < length (recs ?h1)"
      unfolding same using old new_array_fresh(3) [OF na] by auto
    have "array_value h' SAMPLE_BOOKS_ref = array_value ?h1 SAMPLE_BOOKS_ref"
      using t len _ _ inrange
    proof (rule touches_only_keeps)
      show "SAMPLE_BOOKS_ref \<noteq> ?a" using s0 by simp
      show "set (arrs ?h1 ! SAMPLE_BOOKS_ref) \<inter> set (arrs ?h1 ! ?a) = {}"
        using disj by blast
    qed
    with sample1 have keep: "array_value h' SAMPLE_BOOKS_ref = SAMPLE_BOOKS" by simp
    have "io ?w1 = []" "books_file ?w1 = Some (Json (Books SAMPLE_BOOKS))"
      using assms(2) by simp_all
    from readBooksFile_ref_present [OF this, of h']
    have second: "\<exists>a2 h2 w2. readBooksFile_ref h' ?w1 = (Inr (Ref a2), h2, w2)
              \<and> array_value h2 a2 = SAMPLE_BOOKS"
      using array_value_new_array [of SAMPLE_BOOKS h' "length (arrs h')" "snd (new_array SAMPLE_BOOKS h')"]
      by (simp add: new_array_def)
    have again: "\<exists>a3 h3 w3. readBooksFile_ref h' w' = (Inr (Ref a3), h3, w3)
                \<and> array_value h3 a3 = SAMPLE_BOOKS
                \<and> books_file w3 = Some (Json (Books SAMPLE_BOOKS))"
      if "books_file w' = None \<and> io w' = []" for w'
      using readBooksFile_ref_missing [of w' h'] that keep
        array_value_new_array [of SAMPLE_BOOKS h' "length (arrs h')" "snd (new_array SAMPLE_BOOKS h')"]
      by (simp add: new_array_def)
    from keep second again show ?thesis by blast
  qed
  have ids: "length SAMPLE_BOOKS = 2 \<and> map book_id SAMPLE_BOOKS = [1, 2]"
    by (simp add: SAMPLE_BOOKS_def)
  have w1: "books_file ?w1 = Some (Json (Books SAMPLE_BOOKS))" by simp
  have ne: "?a \<noteq> SAMPLE_BOOKS_ref" using s0 by simp
  show ?thesis
    using rd w1 val ids ne disj after
    by (intro exI [of _ ?a] exI [of _ ?h1] exI [of _ ?w1]) blast
qed

theorem first_load_seeds_witness:
  "\<exists>a h1 w1.
      readBooksFile_ref module_heap (start None []) = (Inr (Ref a), h1, w1)
    \<and> books_file w1 = Some (Json (Books SAMPLE_BOOKS))
    \<and> array_value h1 a = SAMPLE_BOOKS
    \<and> a \<noteq> SAMPLE_BOOKS_ref
    \<and> set (arrs h1 ! a) \<inter> set (arrs h1 ! SAMPLE_BOOKS_ref) = {}
    \<and> array_value
         (h1\<lparr>recs := (recs h1)[2 := \<lparr>book_id = 1, title = ''changed'', author = ''by the caller'',
                 available = False\<rparr>]\<rparr>) SAMPLE_BOOKS_ref = SAMPLE_BOOKS"
proof -
  have h: "books_file (start None []) = None" "io (start None []) = []"
    "heap_ok module_heap" "array_value module_heap SAMPLE_BOOKS_ref = SAMPLE_BOOKS"
    by (simp_all add: start_def heap_ok_def module_heap_def array_value_def
          SAMPLE_BOOKS_ref_def SAMPLE_BOOKS_def)
  from first_load_seeds [OF h] obtain a h1 w1 where
    r: "readBooksFile_ref module_heap (start None []) = (Inr (Ref a), h1, w1)"
      "books_file w1 = Some (Json (Books SAMPLE_BOOKS))"
      "array_value h1 a = SAMPLE_BOOKS"
      "a \<noteq> SAMPLE_BOOKS_ref"
      "set (arrs h1 ! a) \<inter> set (arrs h1 ! SAMPLE_BOOKS_ref) = {}"
      "\<forall>h'. touches_only a h1 h' \<longrightarrow> array_value h' SAMPLE_BOOKS_ref = SAMPLE_BOOKS"
    by blast
  let ?h' = "h1\<lparr>recs := (recs h1)[2 := \<lparr>book_id = 1, title = ''changed'',
      author = ''by the caller'', available = False\<rparr>]\<rparr>"
  have "h1 = snd (new_array SAMPLE_BOOKS module_heap)" "a = 1"
    using r(1) readBooksFile_ref_missing [OF h(2,1,4)]
    by (simp_all add: module_heap_def)
  then have "2 \<in> set (arrs h1 ! a)"
    by (simp add: new_array_def module_heap_def SAMPLE_BOOKS_def)
  then have "touches_only a h1 ?h'"
    by (rule touches_only_record_update)
  with r(6) have "array_value ?h' SAMPLE_BOOKS_ref = SAMPLE_BOOKS" by blast
  with r(1-5) show ?thesis by blast
qed

section \<open>The write queue\<close>

lemma set_state_length [simp]: "length (promises (set_state k s m)) = length (promises m)"
  by (simp add: set_state_def)

lemma set_state_fields [simp]:
  "jobs (set_state k s m) = jobs m" "queue (set_state k s m) = queue m"
  "journal (set_state k s m) = journal m"
  "disk (set_state k s m) = disk m" "tmp (set_state k s m) = tmp m"
  by (simp_all add: set_state_def)

lemma advances_view:
  assumes "advances m k s es m1"
  shows "length (promises m1) = length (promises m)"
    and "state_of m1 i = (if i = k then s else state_of m i)"
    and "origin (promises m1 ! i) = origin (promises m ! i)"
    and "job (promises m1 ! i) = job (promises m ! i)"
    and "jobs m1 = jobs m" and "queue m1 = queue m" and "journal m1 = journal m @ es"
    and "k < length (promises m)"
proof -
  from assms have k: "k < length (promises m)"
    and p: "promises m1 = (promises m)[k := (promises m ! k)\<lparr>pstate := s\<rparr>]"
    and r: "jobs m1 = jobs m" "queue m1 = queue m" "journal m1 = journal m @ es"
    by (simp_all add: advances_def)
  show "length (promises m1) = length (promises m)" by (simp add: p)
  show "state_of m1 i = (if i = k then s else state_of m i)"
    using k by (simp add: state_of_def p)
  show "origin (promises m1 ! i) = origin (promises m ! i)"
    using k by (cases "i = k") (simp_all add: p)
  show "job (promises m1 ! i) = job (promises m ! i)"
    using k by (cases "i = k") (simp_all add: p)
  show "jobs m1 = jobs m" "queue m1 = queue m" "journal m1 = journal m @ es"
    "k < length (promises m)"
    by (rule r k)+
qed

lemma legal_facts:
  assumes "legal m k s es"
  shows "\<not> settled (state_of m k)" and "s \<noteq> Pending"
    and "weight s < weight (state_of m k)"
  using assms
  by (auto simp: legal_def settled_def weight_def
        split: pstate.splits stage.splits origin.splits)

lemma legal_entries:
  assumes "legal m k s es"
  shows "es = []
    \<or> es = [Began (job (promises m ! k))]
    \<or> es = [Committed (job (promises m ! k))] \<and> state_of m k = Running Renaming
        \<and> s = Fulfilled"
  using assms
  by (auto simp: legal_def split: pstate.splits stage.splits origin.splits)

lemma step_advances:
  assumes "step e m = Some m1" and "internal e"
  shows "\<exists>k s es. advances m k s es m1 \<and> legal m k s es"
proof (cases e)
  case (Enqueue bs)
  with assms(2) show ?thesis by (simp add: internal_def)
next
  case (Settle k)
  with assms(1) have s: "settle k m = Some m1" by (simp add: step_def)
  then have k: "k < length (promises m)" "state_of m k = Pending"
    by (simp_all add: settle_def split: if_splits)
  show ?thesis
  proof (cases "origin (promises m ! k)")
    case Resolved
    with s k show ?thesis by (simp add: settle_def)
  next
    case (ThenOf p)
    with s k have p: "p < length (promises m)"
      by (simp add: settle_def split: if_splits)
    from s k ThenOf p consider
      "state_of m p = Fulfilled" "m1 = call_fn k m"
      | "state_of m p = Rejected" "m1 = set_state k Rejected m"
      by (cases "state_of m p") (simp_all add: settle_def)
    then show ?thesis
    proof cases
      case 1
      then have "advances m k (Running Writing) [Began (job (promises m ! k))] m1"
        using k by (simp add: advances_def call_fn_def set_state_def)
      moreover have "legal m k (Running Writing) [Began (job (promises m ! k))]"
        using k ThenOf p 1 by (simp add: legal_def)
      ultimately show ?thesis by blast
    next
      case 2
      then have "advances m k Rejected [] m1"
        using k by (simp add: advances_def set_state_def)
      moreover have "legal m k Rejected []"
        using k ThenOf p 2 by (simp add: legal_def)
      ultimately show ?thesis by blast
    qed
  next
    case (CatchOf p)
    with s k have p: "p < length (promises m)"
      by (simp add: settle_def split: if_splits)
    from s k CatchOf p consider
      "state_of m p = Fulfilled" "m1 = set_state k Fulfilled m"
      | "state_of m p = Rejected" "m1 = call_fn k m"
      by (cases "state_of m p") (simp_all add: settle_def)
    then show ?thesis
    proof cases
      case 1
      then have "advances m k Fulfilled [] m1"
        using k by (simp add: advances_def set_state_def)
      moreover have "legal m k Fulfilled []"
        using k CatchOf p 1 by (simp add: legal_def)
      ultimately show ?thesis by blast
    next
      case 2
      then have "advances m k (Running Writing) [Began (job (promises m ! k))] m1"
        using k by (simp add: advances_def call_fn_def set_state_def)
      moreover have "legal m k (Running Writing) [Began (job (promises m ! k))]"
        using k CatchOf p 2 by (simp add: legal_def)
      ultimately show ?thesis by blast
    qed
  qed
next
  case (WriteFileDone k r)
  with assms(1) have s: "writeFile_done k r m = Some m1" by (simp add: step_def)
  then have k: "k < length (promises m)" "state_of m k = Running Writing"
    by (simp_all add: writeFile_done_def split: if_splits)
  show ?thesis
  proof (cases r)
    case None
    with s k have "advances m k (Running Renaming) [] m1"
      by (auto simp add: writeFile_done_def advances_def set_state_def)
    moreover have "legal m k (Running Renaming) []"
      using k by (simp add: legal_def)
    ultimately show ?thesis by blast
  next
    case (Some c)
    with s k have "advances m k Rejected [] m1"
      by (auto simp add: writeFile_done_def advances_def set_state_def)
    moreover have "legal m k Rejected []"
      using k by (simp add: legal_def)
    ultimately show ?thesis by blast
  qed
next
  case (RenameDone k r)
  with assms(1) have s: "rename_done k r m = Some m1" by (simp add: step_def)
  then have k: "k < length (promises m)" "state_of m k = Running Renaming"
    by (simp_all add: rename_done_def split: if_splits)
  show ?thesis
  proof (cases r)
    case None
    show ?thesis
    proof (cases "tmp m")
      case (Some data)
      with None s k have "advances m k Fulfilled [Committed (job (promises m ! k))] m1"
        by (auto simp add: rename_done_def advances_def set_state_def)
      moreover have "legal m k Fulfilled [Committed (job (promises m ! k))]"
        using k by (simp add: legal_def)
      ultimately show ?thesis by blast
    next
      case no_tmp: None
      with None s k have "advances m k Rejected [] m1"
        by (auto simp add: rename_done_def advances_def set_state_def)
      moreover have "legal m k Rejected []"
        using k by (simp add: legal_def)
      ultimately show ?thesis by blast
    qed
  next
    case (Some c)
    with s k have "advances m k Rejected [] m1"
      by (auto simp add: rename_done_def advances_def set_state_def)
    moreover have "legal m k Rejected []"
      using k by (simp add: legal_def)
    ultimately show ?thesis by blast
  qed
qed

lemma enqueue_view:
  "length (promises (enqueue bs m)) = Suc (Suc (length (promises m)))"
  "jobs (enqueue bs m) = Suc (jobs m)"
  "journal (enqueue bs m) = journal m"
  "queue (enqueue bs m) = Suc (length (promises m))"
  "i < length (promises m) \<Longrightarrow> promises (enqueue bs m) ! i = promises m ! i"
  "i < length (promises m) \<Longrightarrow> state_of (enqueue bs m) i = state_of m i"
  "promises (enqueue bs m) ! length (promises m)
     = \<lparr>origin = ThenOf (queue m), job = jobs m, closure_books = bs, pstate = Pending\<rparr>"
  "promises (enqueue bs m) ! Suc (length (promises m))
     = \<lparr>origin = CatchOf (length (promises m)), job = jobs m, closure_books = bs,
        pstate = Pending\<rparr>"
  by (simp_all add: enqueue_def Let_def state_of_def nth_append)

lemma enqueue_new_pending:
  assumes "i < length (promises (enqueue bs m))" and "state_of (enqueue bs m) i \<noteq> Pending"
  shows "i < length (promises m)"
proof (rule ccontr)
  assume "\<not> i < length (promises m)"
  with assms(1) have "i = length (promises m) \<or> i = Suc (length (promises m))"
    by (simp add: enqueue_view(1)) linarith
  then have "state_of (enqueue bs m) i = Pending"
    by (auto simp: state_of_def enqueue_view(7,8))
  with assms(2) show False by simp
qed

lemma commits_append [simp]: "commits (xs @ ys) = commits xs @ commits ys"
  by (simp add: commits_def)

lemma commits_single [simp]: "commits [Began j] = []" "commits [Committed j] = [j]" "commits [] = []"
  by (simp_all add: commits_def)

lemma set_commits: "c \<in> set (commits es) \<longleftrightarrow> Committed c \<in> set es"
  by (induction es) (auto simp: commits_def split: entry.splits)

subsection \<open>The invariant holds in every run\<close>

lemma chain_ok_machine0: "chain_ok (machine0 f)"
  by (simp add: chain_ok_def shape_def in_order_def reacted_def reaction_ok_def journal_ok_def
      machine0_def state_of_def commits_def)

lemma shape_advances:
  assumes "advances m k s es m1" and "shape m"
  shows "shape m1"
  using assms(2)
  unfolding shape_def advances_view(1,3,4,5,6) [OF assms(1)] .

lemma shape_enqueue:
  assumes "shape m"
  shows "shape (enqueue bs m)"
proof -
  let ?n = "length (promises m)"
  let ?m = "enqueue bs m"
  from assms have n: "?n = Suc (2 * jobs m)" and q: "queue m = 2 * jobs m"
    and z: "origin (promises m ! 0) = Resolved"
    and oldj: "\<And>k. k < ?n \<Longrightarrow> job (promises m ! k) = (k - 1) div 2"
    and oldo: "\<And>k. k < ?n \<Longrightarrow> 0 < k \<Longrightarrow>
          origin (promises m ! k) = (if odd k then ThenOf (k - 1) else CatchOf (k - 1))"
    by (simp_all add: shape_def)
  have p1: "promises ?m ! ?n
      = \<lparr>origin = ThenOf (queue m), job = jobs m, closure_books = bs, pstate = Pending\<rparr>"
    by (rule enqueue_view(7))
  have p2: "promises ?m ! Suc ?n
      = \<lparr>origin = CatchOf ?n, job = jobs m, closure_books = bs, pstate = Pending\<rparr>"
    by (rule enqueue_view(8))
  have split: "k < ?n \<or> k = ?n \<or> k = Suc ?n" if "k < length (promises ?m)" for k
    using that by (simp add: enqueue_view(1)) linarith
  have newj: "job (promises ?m ! k) = (k - 1) div 2" if k: "k < length (promises ?m)" for k
  proof -
    from split [OF k] consider "k < ?n" | "k = ?n" | "k = Suc ?n" by blast
    then show ?thesis
    proof cases
      case 1
      with oldj [OF 1] show ?thesis by (simp add: enqueue_view(5))
    next
      case 2
      have "(k - 1) div 2 = jobs m" using 2 n by simp
      moreover have "job (promises ?m ! k) = jobs m" unfolding 2 p1 by simp
      ultimately show ?thesis by simp
    next
      case 3
      have "(k - 1) div 2 = jobs m" using 3 n by simp
      moreover have "job (promises ?m ! k) = jobs m" unfolding 3 p2 by simp
      ultimately show ?thesis by simp
    qed
  qed
  have newo: "origin (promises ?m ! k) = (if odd k then ThenOf (k - 1) else CatchOf (k - 1))"
    if k: "k < length (promises ?m)" "0 < k" for k
  proof -
    from split [OF k(1)] consider "k < ?n" | "k = ?n" | "k = Suc ?n" by blast
    then show ?thesis
    proof cases
      case 1
      with oldo [OF 1 k(2)] show ?thesis by (simp add: enqueue_view(5))
    next
      case 2
      have "odd k" "k - 1 = queue m" using 2 n q by simp_all
      moreover have "origin (promises ?m ! k) = ThenOf (queue m)" unfolding 2 p1 by simp
      ultimately show ?thesis by simp
    next
      case 3
      have "even k" "k - 1 = ?n" using 3 n by simp_all
      moreover have "origin (promises ?m ! k) = CatchOf ?n" unfolding 3 p2 by simp
      ultimately show ?thesis by simp
    qed
  qed
  have "0 < ?n" using n by simp
  then have z': "origin (promises ?m ! 0) = Resolved"
    using z by (simp add: enqueue_view(5))
  have len: "length (promises ?m) = Suc (2 * jobs ?m)"
    using n by (simp add: enqueue_view(1,2))
  have que: "queue ?m = 2 * jobs ?m"
    using n by (simp add: enqueue_view(2,4))
  show ?thesis
    unfolding shape_def
  proof (intro conjI allI impI)
    show "length (promises ?m) = Suc (2 * jobs ?m)" by (rule len)
    show "queue ?m = 2 * jobs ?m" by (rule que)
    show "origin (promises ?m ! 0) = Resolved" by (rule z')
  next
    fix k assume "k < length (promises ?m)"
    then show "job (promises ?m ! k) = (k - 1) div 2" by (rule newj)
  next
    fix k assume "k < length (promises ?m)" "0 < k"
    then show "origin (promises ?m ! k) = (if odd k then ThenOf (k - 1) else CatchOf (k - 1))"
      by (rule newo)
  qed
qed

lemma first_is_settled:
  assumes "in_order m" and "\<not> settled (state_of m k)"
  shows "0 < k"
proof (rule ccontr)
  assume "\<not> 0 < k"
  then have "k = 0" by simp
  with assms(1) have "state_of m k = Fulfilled" by (simp add: in_order_def)
  with assms(2) show False by (simp add: settled_def)
qed

lemma pending_pred:
  assumes "legal m k s es" and "shape m" and "in_order m" and "k < length (promises m)"
    and "state_of m k = Pending"
  shows "settled (state_of m (k - 1))"
proof -
  from assms(5) have "\<not> settled (state_of m k)" by (simp add: settled_def)
  with assms(3) have k: "0 < k" by (rule first_is_settled)
  with assms(2,4)
  have o: "origin (promises m ! k) = (if odd k then ThenOf (k - 1) else CatchOf (k - 1))"
    by (simp add: shape_def)
  show ?thesis
  proof (cases "odd k")
    case True
    with o assms(1,5) show ?thesis by (auto simp: legal_def settled_def)
  next
    case False
    with o assms(1,5) show ?thesis by (auto simp: legal_def settled_def)
  qed
qed

lemma below_settled:
  assumes "legal m k s es" and "shape m" and "in_order m" and "k < length (promises m)"
    and "i < k"
  shows "settled (state_of m i)"
proof (cases "state_of m k = Pending")
  case False
  with assms(3,4,5) show ?thesis by (simp add: in_order_def)
next
  case True
  from pending_pred [OF assms(1-4) True] have p: "settled (state_of m (k - 1))" .
  show ?thesis
  proof (cases "i = k - 1")
    case True
    with p show ?thesis by simp
  next
    case False
    with assms(5) have i: "i < k - 1" by simp
    from p have "state_of m (k - 1) \<noteq> Pending" by (auto simp: settled_def)
    moreover from assms(4) have "k - 1 < length (promises m)" by simp
    ultimately show ?thesis
      using assms(3) i by (simp add: in_order_def)
  qed
qed

lemma in_order_advances:
  assumes adv: "advances m k s es m1" and leg: "legal m k s es"
    and sh: "shape m" and io: "in_order m"
  shows "in_order m1"
proof -
  note v = advances_view [OF adv]
  note ns = legal_facts(1) [OF leg]
  from io ns have k0: "0 < k" by (rule first_is_settled)
  have zero: "state_of m1 0 = Fulfilled"
    using io k0 by (simp add: v(2) in_order_def)
  have rest: "settled (state_of m1 i)"
    if j: "j < length (promises m1)" "state_of m1 j \<noteq> Pending" and i: "i < j" for i j
  proof (cases "j = k")
    case True
    with i have "i < k" by simp
    from below_settled [OF leg sh io v(8) this] have "settled (state_of m i)" .
    with \<open>i < k\<close> show ?thesis by (simp add: v(2))
  next
    case False
    with j have "j < length (promises m)" "state_of m j \<noteq> Pending"
      by (simp_all add: v(1,2))
    with io i have old: "settled (state_of m i)" by (simp add: in_order_def)
    with ns have "i \<noteq> k" by auto
    with old show ?thesis by (simp add: v(2))
  qed
  show ?thesis
    unfolding in_order_def using zero rest by blast
qed

lemma in_order_enqueue:
  assumes "shape m" and "in_order m"
  shows "in_order (enqueue bs m)"
proof -
  let ?m = "enqueue bs m"
  from assms(1) have n: "0 < length (promises m)" by (simp add: shape_def)
  with assms(2) have zero: "state_of ?m 0 = Fulfilled"
    by (simp add: enqueue_view(6) in_order_def)
  have rest: "settled (state_of ?m i)"
    if j: "j < length (promises ?m)" "state_of ?m j \<noteq> Pending" and i: "i < j" for i j
  proof -
    from j have jn: "j < length (promises m)" by (rule enqueue_new_pending)
    with i have "i < length (promises m)" by simp
    moreover from j(2) jn have "state_of m j \<noteq> Pending" by (simp add: enqueue_view(6))
    ultimately show ?thesis
      using assms(2) jn i by (simp add: enqueue_view(6) in_order_def)
  qed
  show ?thesis
    unfolding in_order_def
  proof (intro conjI allI impI)
    show "state_of ?m 0 = Fulfilled" by (rule zero)
  next
    fix k i assume "k < length (promises ?m)" "state_of ?m k \<noteq> Pending" "i < k"
    then show "settled (state_of ?m i)" by (rule rest)
  qed
qed

lemma reaction_ok_kept:
  assumes adv: "advances m k s es m1" and ns: "\<not> settled (state_of m k)"
    and j: "j \<noteq> k" and ok: "reaction_ok m j"
  shows "reaction_ok m1 j"
proof -
  note v = advances_view [OF adv]
  show ?thesis
  proof (cases "origin (promises m ! j)")
    case Resolved
    then show ?thesis by (simp add: reaction_ok_def v(3))
  next
    case (ThenOf p)
    with ok have d: "(state_of m p = Fulfilled \<and> Began (job (promises m ! j)) \<in> set (journal m))
        \<or> (state_of m p = Rejected \<and> state_of m j = Rejected)"
      by (simp add: reaction_ok_def)
    then have "settled (state_of m p)" by (auto simp: settled_def)
    with ns have "p \<noteq> k" by auto
    with d j ThenOf show ?thesis
      by (auto simp: reaction_ok_def v(2,3,4,7))
  next
    case (CatchOf p)
    with ok have d: "(state_of m p = Fulfilled \<and> state_of m j = Fulfilled)
        \<or> (state_of m p = Rejected \<and> Began (job (promises m ! j)) \<in> set (journal m))"
      by (simp add: reaction_ok_def)
    then have "settled (state_of m p)" by (auto simp: settled_def)
    with ns have "p \<noteq> k" by auto
    with d j CatchOf show ?thesis
      by (auto simp: reaction_ok_def v(2,3,4,7))
  qed
qed

lemma reaction_ok_moved:
  assumes adv: "advances m k s es m1" and leg: "legal m k s es"
    and old: "state_of m k \<noteq> Pending \<Longrightarrow> reaction_ok m k"
  shows "reaction_ok m1 k"
proof -
  note v = advances_view [OF adv]
  note ns = legal_facts(1) [OF leg]
  show ?thesis
  proof (cases "origin (promises m ! k)")
    case Resolved
    then show ?thesis by (simp add: reaction_ok_def v(3))
  next
    case (ThenOf p)
    show ?thesis
    proof (cases "state_of m k = Pending")
      case True
      with leg ThenOf have d: "state_of m p = Fulfilled \<and> s = Running Writing
            \<and> es = [Began (job (promises m ! k))]
          \<or> state_of m p = Rejected \<and> s = Rejected \<and> es = []"
        by (simp add: legal_def)
      then have "settled (state_of m p)" by (auto simp: settled_def)
      with ns have "p \<noteq> k" by auto
      with d ThenOf show ?thesis
        by (auto simp: reaction_ok_def v(2,3,4,7))
    next
      case False
      from old [OF False] ThenOf ns
      have d: "state_of m p = Fulfilled \<and> Began (job (promises m ! k)) \<in> set (journal m)"
        by (auto simp: reaction_ok_def settled_def)
      then have "settled (state_of m p)" by (auto simp: settled_def)
      with ns have "p \<noteq> k" by auto
      with d ThenOf show ?thesis
        by (auto simp: reaction_ok_def v(2,3,4,7))
    qed
  next
    case (CatchOf p)
    show ?thesis
    proof (cases "state_of m k = Pending")
      case True
      with leg CatchOf have d: "state_of m p = Fulfilled \<and> s = Fulfilled \<and> es = []
          \<or> state_of m p = Rejected \<and> s = Running Writing
            \<and> es = [Began (job (promises m ! k))]"
        by (simp add: legal_def)
      then have "settled (state_of m p)" by (auto simp: settled_def)
      with ns have "p \<noteq> k" by auto
      with d CatchOf show ?thesis
        by (auto simp: reaction_ok_def v(2,3,4,7))
    next
      case False
      from old [OF False] CatchOf ns
      have d: "state_of m p = Rejected \<and> Began (job (promises m ! k)) \<in> set (journal m)"
        by (auto simp: reaction_ok_def settled_def)
      then have "settled (state_of m p)" by (auto simp: settled_def)
      with ns have "p \<noteq> k" by auto
      with d CatchOf show ?thesis
        by (auto simp: reaction_ok_def v(2,3,4,7))
    qed
  qed
qed

lemma reacted_advances:
  assumes adv: "advances m k s es m1" and leg: "legal m k s es" and re: "reacted m"
  shows "reacted m1"
proof -
  note v = advances_view [OF adv]
  note ns = legal_facts(1) [OF leg]
  have "reaction_ok m1 j" if j: "j < length (promises m1)" "state_of m1 j \<noteq> Pending" for j
  proof (cases "j = k")
    case True
    have "reaction_ok m1 k"
      using adv leg
    proof (rule reaction_ok_moved)
      assume "state_of m k \<noteq> Pending"
      with re v(8) show "reaction_ok m k" by (simp add: reacted_def)
    qed
    with True show ?thesis by simp
  next
    case False
    with j have "j < length (promises m)" "state_of m j \<noteq> Pending"
      by (simp_all add: v(1,2))
    with re have "reaction_ok m j" by (simp add: reacted_def)
    with adv ns False show ?thesis by (rule reaction_ok_kept)
  qed
  then show ?thesis by (simp add: reacted_def)
qed

lemma reacted_enqueue:
  assumes sh: "shape m" and io: "in_order m" and re: "reacted m"
  shows "reacted (enqueue bs m)"
proof -
  let ?m = "enqueue bs m"
  have "reaction_ok ?m j" if j: "j < length (promises ?m)" "state_of ?m j \<noteq> Pending" for j
  proof -
    from j have jn: "j < length (promises m)" by (rule enqueue_new_pending)
    with j(2) have np: "state_of m j \<noteq> Pending" by (simp add: enqueue_view(6))
    with re jn have ok: "reaction_ok m j" by (simp add: reacted_def)
    show ?thesis
    proof (cases "j = 0")
      case True
      with sh jn show ?thesis by (simp add: reaction_ok_def shape_def enqueue_view(5))
    next
      case False
      with sh jn have o: "origin (promises m ! j)
          = (if odd j then ThenOf (j - 1) else CatchOf (j - 1))"
        by (simp add: shape_def)
      from jn have p: "j - 1 < length (promises m)" by simp
      show ?thesis
        using ok o jn p
        by (cases "odd j") (simp_all add: reaction_ok_def enqueue_view(3,5,6))
    qed
  qed
  then show ?thesis by (simp add: reacted_def)
qed

lemma entries_below:
  assumes sh: "shape m" and io: "in_order m" and jo: "journal_ok m"
    and k: "k < length (promises m)" and ns: "\<not> settled (state_of m k)"
    and e: "e \<in> set (journal m)"
  shows "entry_job e \<le> job (promises m ! k)"
proof -
  from jo e obtain i where i: "i < length (promises m)" "state_of m i \<noteq> Pending"
      "job (promises m ! i) = entry_job e"
    by (auto simp: journal_ok_def)
  have "i \<le> k"
  proof (rule ccontr)
    assume "\<not> i \<le> k"
    then have "k < i" by simp
    with io i(1,2) have "settled (state_of m k)" by (simp add: in_order_def)
    with ns show False by simp
  qed
  then have "(i - 1) div 2 \<le> (k - 1) div 2"
    by (intro div_le_mono) simp
  with sh i(1,3) k show ?thesis by (simp add: shape_def)
qed

lemma not_yet_committed:
  assumes sh: "shape m" and io: "in_order m" and re: "reacted m" and jo: "journal_ok m"
    and k: "k < length (promises m)" and run: "state_of m k = Running Renaming"
  shows "Committed (job (promises m ! k)) \<notin> set (journal m)"
proof
  assume "Committed (job (promises m ! k)) \<in> set (journal m)"
  with jo obtain i where i: "i < length (promises m)" "0 < i"
      "job (promises m ! i) = job (promises m ! k)" "state_of m i = Fulfilled"
    by (auto simp: journal_ok_def)
  from run have ns: "\<not> settled (state_of m k)" by (simp add: settled_def)
  with io have k0: "0 < k" by (rule first_is_settled)
  from i(4) run have "i \<noteq> k" by auto
  have "i < k"
  proof (rule ccontr)
    assume "\<not> i < k"
    with \<open>i \<noteq> k\<close> have "k < i" by simp
    with io i(1,4) have "settled (state_of m k)" by (simp add: in_order_def)
    with ns show False by simp
  qed
  from sh i(1,3) k have "(i - 1) div 2 = (k - 1) div 2" by (simp add: shape_def)
  with \<open>i < k\<close> i(2) have ik: "i = k - 1" "even k" by presburger+
  with sh k k0 have "origin (promises m ! k) = CatchOf i" by (simp add: shape_def)
  moreover from re k run have "reaction_ok m k" by (simp add: reacted_def)
  ultimately show False
    using run i(4) by (simp add: reaction_ok_def)
qed

lemma journal_ok_advances:
  assumes adv: "advances m k s es m1" and leg: "legal m k s es"
    and sh: "shape m" and io: "in_order m" and re: "reacted m" and jo: "journal_ok m"
  shows "journal_ok m1"
proof -
  note v = advances_view [OF adv]
  note ns = legal_facts(1) [OF leg]
  note sp = legal_facts(2) [OF leg]
  from io ns have k0: "0 < k" by (rule first_is_settled)
  note below = entries_below [OF sh io jo v(8) ns]
  from legal_entries [OF leg] consider
    (none) "es = []"
    | (began) "es = [Began (job (promises m ! k))]"
    | (committed) "es = [Committed (job (promises m ! k))]" "state_of m k = Running Renaming"
        "s = Fulfilled"
    by blast
  note es = this
  have le: "\<forall>x\<in>set (map entry_job (journal m)). x \<le> job (promises m ! k)"
    using below by auto
  have sorted1: "sorted (map entry_job (journal m1))"
  proof -
    from jo have old: "sorted (map entry_job (journal m))" by (simp add: journal_ok_def)
    from es show ?thesis
    proof cases
      case none
      with old show ?thesis by (simp add: v(7))
    next
      case began
      with old le show ?thesis by (simp add: v(7) sorted_append entry_job_def)
    next
      case committed
      with old le show ?thesis by (simp add: v(7) sorted_append entry_job_def)
    qed
  qed
  have sorted2: "sorted_wrt (<) (commits (journal m1))"
  proof -
    from jo have old: "sorted_wrt (<) (commits (journal m))" by (simp add: journal_ok_def)
    from es show ?thesis
    proof cases
      case none
      with old show ?thesis by (simp add: v(7))
    next
      case began
      with old show ?thesis by (simp add: v(7))
    next
      case committed
      have "c < job (promises m ! k)" if "c \<in> set (commits (journal m))" for c
      proof -
        from that have c: "Committed c \<in> set (journal m)" by (simp add: set_commits)
        from below [OF this] have "c \<le> job (promises m ! k)" by (simp add: entry_job_def)
        moreover from not_yet_committed [OF sh io re jo v(8) committed(2)] c
        have "c \<noteq> job (promises m ! k)" by auto
        ultimately show ?thesis by simp
      qed
      with old committed(1) show ?thesis
        by (simp add: v(7) sorted_wrt_append)
    qed
  qed
  have known: "\<exists>i<length (promises m1). state_of m1 i \<noteq> Pending
        \<and> job (promises m1 ! i) = entry_job e"
    if e: "e \<in> set (journal m1)" for e
  proof (cases "e \<in> set (journal m)")
    case True
    with jo obtain i where "i < length (promises m)" "state_of m i \<noteq> Pending"
        "job (promises m ! i) = entry_job e"
      by (auto simp: journal_ok_def)
    with sp show ?thesis
      by (intro exI [of _ i]) (simp add: v(1,2,4))
  next
    case False
    with e have in_es: "e \<in> set es" by (simp add: v(7))
    have "entry_job e = job (promises m ! k)"
      using legal_entries [OF leg] in_es by (auto simp: entry_job_def)
    with sp v(8) show ?thesis
      by (intro exI [of _ k]) (simp add: v(1,2,4))
  qed
  have fin: "\<exists>i<length (promises m1). 0 < i \<and> job (promises m1 ! i) = j
        \<and> state_of m1 i = Fulfilled"
    if c: "Committed j \<in> set (journal m1)" for j
  proof (cases "Committed j \<in> set (journal m)")
    case True
    with jo obtain i where i: "i < length (promises m)" "0 < i" "job (promises m ! i) = j"
        "state_of m i = Fulfilled"
      by (auto simp: journal_ok_def)
    from i(4) ns have "i \<noteq> k" by (auto simp: settled_def)
    with i show ?thesis
      by (intro exI [of _ i]) (simp add: v(1,2,4))
  next
    case False
    with c have in_es: "Committed j \<in> set es" by (simp add: v(7))
    from es show ?thesis
    proof cases
      case none
      with in_es show ?thesis by simp
    next
      case began
      with in_es show ?thesis by simp
    next
      case committed
      with in_es have "j = job (promises m ! k)" by simp
      with committed(3) v(8) k0 show ?thesis
        by (intro exI [of _ k]) (simp add: v(1,2,4))
    qed
  qed
  show ?thesis
    unfolding journal_ok_def
  proof (intro conjI ballI allI impI)
    show "sorted (map entry_job (journal m1))" by (rule sorted1)
    show "sorted_wrt (<) (commits (journal m1))" by (rule sorted2)
  next
    fix e assume "e \<in> set (journal m1)"
    then show "\<exists>i<length (promises m1). state_of m1 i \<noteq> Pending
        \<and> job (promises m1 ! i) = entry_job e"
      by (rule known)
  next
    fix j assume "Committed j \<in> set (journal m1)"
    then show "\<exists>i<length (promises m1). 0 < i \<and> job (promises m1 ! i) = j
        \<and> state_of m1 i = Fulfilled"
      by (rule fin)
  qed
qed

lemma journal_ok_enqueue:
  assumes "journal_ok m"
  shows "journal_ok (enqueue bs m)"
proof -
  let ?m = "enqueue bs m"
  have known: "\<exists>i<length (promises ?m). state_of ?m i \<noteq> Pending
        \<and> job (promises ?m ! i) = entry_job e"
    if "e \<in> set (journal ?m)" for e
  proof -
    from that assms obtain i where "i < length (promises m)" "state_of m i \<noteq> Pending"
        "job (promises m ! i) = entry_job e"
      by (auto simp: journal_ok_def enqueue_view(3))
    then show ?thesis
      by (intro exI [of _ i]) (simp add: enqueue_view(1,5,6))
  qed
  have fin: "\<exists>i<length (promises ?m). 0 < i \<and> job (promises ?m ! i) = j
        \<and> state_of ?m i = Fulfilled"
    if "Committed j \<in> set (journal ?m)" for j
  proof -
    from that assms obtain i where "i < length (promises m)" "0 < i"
        "job (promises m ! i) = j" "state_of m i = Fulfilled"
      by (auto simp: journal_ok_def enqueue_view(3))
    then show ?thesis
      by (intro exI [of _ i]) (simp add: enqueue_view(1,5,6))
  qed
  from assms have s: "sorted (map entry_job (journal ?m))"
    "sorted_wrt (<) (commits (journal ?m))"
    by (simp_all add: journal_ok_def enqueue_view(3))
  show ?thesis
    unfolding journal_ok_def
  proof (intro conjI ballI allI impI)
    show "sorted (map entry_job (journal ?m))" by (rule s(1))
    show "sorted_wrt (<) (commits (journal ?m))" by (rule s(2))
  next
    fix e assume "e \<in> set (journal ?m)"
    then show "\<exists>i<length (promises ?m). state_of ?m i \<noteq> Pending
        \<and> job (promises ?m ! i) = entry_job e"
      by (rule known)
  next
    fix j assume "Committed j \<in> set (journal ?m)"
    then show "\<exists>i<length (promises ?m). 0 < i \<and> job (promises ?m ! i) = j
        \<and> state_of ?m i = Fulfilled"
      by (rule fin)
  qed
qed

lemma chain_ok_step:
  assumes "step e m = Some m1" and "chain_ok m"
  shows "chain_ok m1"
proof (cases "internal e")
  case True
  from step_advances [OF assms(1) True] obtain k s es where
    a: "advances m k s es m1" and l: "legal m k s es"
    by blast
  from assms(2) have c: "shape m" "in_order m" "reacted m" "journal_ok m"
    by (simp_all add: chain_ok_def)
  from shape_advances [OF a c(1)] in_order_advances [OF a l c(1,2)]
    reacted_advances [OF a l c(3)] journal_ok_advances [OF a l c]
  show ?thesis by (simp add: chain_ok_def)
next
  case False
  then obtain bs where "e = Enqueue bs"
    by (cases e) (simp_all add: internal_def)
  with assms(1) have m1: "m1 = enqueue bs m" by (simp add: step_def)
  from assms(2) have c: "shape m" "in_order m" "reacted m" "journal_ok m"
    by (simp_all add: chain_ok_def)
  from shape_enqueue [OF c(1)] in_order_enqueue [OF c(1,2)] reacted_enqueue [OF c(1,2,3)]
    journal_ok_enqueue [OF c(4)]
  show ?thesis unfolding m1 by (simp add: chain_ok_def)
qed

lemma chain_ok_run:
  assumes "run es m = Some m1" and "chain_ok m"
  shows "chain_ok m1"
  using assms
proof (induction es arbitrary: m)
  case Nil
  then show ?case by simp
next
  case (Cons e es)
  from Cons.prems(1) obtain m2 where s: "step e m = Some m2" and r: "run es m2 = Some m1"
    by (auto split: option.splits)
  from chain_ok_step [OF s Cons.prems(2)] have "chain_ok m2" .
  with r show ?case by (rule Cons.IH)
qed

subsection \<open>What the invariant gives\<close>

lemma one_running:
  assumes io: "in_order m" and i: "i < length (promises m)" and j: "j < length (promises m)"
    and ri: "running (state_of m i)" and rj: "running (state_of m j)"
  shows "i = j"
proof (rule ccontr)
  assume ne: "i \<noteq> j"
  have no: "False" if a: "a < b" "b < length (promises m)" "running (state_of m a)"
      "running (state_of m b)" for a b
  proof -
    from a(4) have "state_of m b \<noteq> Pending" by (auto simp: running_def)
    with io a(1,2) have "settled (state_of m a)" by (simp add: in_order_def)
    with a(3) show False by (auto simp: settled_def running_def)
  qed
  from ne consider "i < j" | "j < i" by linarith
  then show False
  proof cases
    case 1
    from no [OF 1 j ri rj] show False .
  next
    case 2
    from no [OF 2 i rj ri] show False .
  qed
qed

lemma quiescent_settled:
  assumes sh: "shape m" and io: "in_order m"
    and q: "\<forall>e. internal e \<longrightarrow> step e m = None"
  shows "k < length (promises m) \<Longrightarrow> settled (state_of m k)"
proof (induction k rule: less_induct)
  case (less k)
  show ?case
  proof (cases "state_of m k")
    case Pending
    then have "\<not> settled (state_of m k)" by (simp add: settled_def)
    with io have k0: "0 < k" by (rule first_is_settled)
    with less.prems have p: "k - 1 < length (promises m)" "k - 1 < k" by simp_all
    from less.IH [OF p(2) p(1)] have ps: "settled (state_of m (k - 1))" .
    from sh less.prems k0
    have o: "origin (promises m ! k) = (if odd k then ThenOf (k - 1) else CatchOf (k - 1))"
      by (simp add: shape_def)
    have "settle k m \<noteq> None"
      using Pending less.prems p(1) ps o
      by (cases "odd k") (auto simp: settle_def settled_def)
    then have "step (Settle k) m \<noteq> None" by (simp add: step_def)
    moreover have "internal (Settle k)" by (simp add: internal_def)
    ultimately have False using q by auto
    then show ?thesis ..
  next
    case (Running g)
    have "step (WriteFileDone k None) m \<noteq> None \<or> step (RenameDone k None) m \<noteq> None"
      using Running less.prems
      by (cases g) (simp_all add: step_def writeFile_done_def rename_done_def split: option.splits)
    moreover have "internal (WriteFileDone k None)" "internal (RenameDone k None)"
      by (simp_all add: internal_def)
    ultimately have False using q by auto
    then show ?thesis ..
  next
    case Fulfilled
    then show ?thesis by (simp add: settled_def)
  next
    case Rejected
    then show ?thesis by (simp add: settled_def)
  qed
qed

lemma settled_quiescent:
  assumes "list_all (\<lambda>p. settled (pstate p)) (promises m)" and "internal e"
  shows "step e m = None"
proof -
  have s: "settled (state_of m k)" if "k < length (promises m)" for k
    using assms(1) that by (simp add: list_all_length state_of_def)
  show ?thesis
  proof (cases e)
    case (Enqueue bs)
    with assms(2) show ?thesis by (simp add: internal_def)
  next
    case (Settle k)
    with s [of k] show ?thesis by (auto simp: step_def settle_def settled_def)
  next
    case (WriteFileDone k r)
    with s [of k] show ?thesis by (auto simp: step_def writeFile_done_def settled_def)
  next
    case (RenameDone k r)
    with s [of k] show ?thesis by (auto simp: step_def rename_done_def settled_def)
  qed
qed

lemma all_begun:
  assumes c: "chain_ok m" and q: "\<forall>e. internal e \<longrightarrow> step e m = None"
    and j: "j < jobs m"
  shows "Began j \<in> set (journal m)"
proof -
  from c have sh: "shape m" and io: "in_order m" and re: "reacted m"
    by (simp_all add: chain_ok_def)
  let ?k1 = "Suc (2 * j)" and ?k2 = "Suc (Suc (2 * j))"
  from sh j have k: "?k1 < length (promises m)" "?k2 < length (promises m)"
    by (simp_all add: shape_def)
  from sh k have o: "origin (promises m ! ?k1) = ThenOf (2 * j)"
      "origin (promises m ! ?k2) = CatchOf ?k1"
      "job (promises m ! ?k1) = j" "job (promises m ! ?k2) = j"
    by (simp_all add: shape_def)
  from quiescent_settled [OF sh io q k(1)] quiescent_settled [OF sh io q k(2)]
  have np: "state_of m ?k1 \<noteq> Pending" "state_of m ?k2 \<noteq> Pending"
    by (auto simp: settled_def)
  from re k np have r: "reaction_ok m ?k1" "reaction_ok m ?k2"
    by (simp_all add: reacted_def)
  from r(1) o(1,3) consider "Began j \<in> set (journal m)" | "state_of m ?k1 = Rejected"
    by (auto simp: reaction_ok_def)
  then show ?thesis
  proof cases
    case 1
    then show ?thesis .
  next
    case 2
    with r(2) o(2,4) show ?thesis by (simp add: reaction_ok_def)
  qed
qed

lemma work_left_advances:
  assumes a: "advances m k s es m1" and l: "legal m k s es"
  shows "work_left m1 < work_left m"
proof -
  let ?w = "map (\<lambda>p. weight (pstate p)) (promises m)"
  from a have k: "k < length (promises m)"
    and p: "promises m1 = (promises m)[k := (promises m ! k)\<lparr>pstate := s\<rparr>]"
    by (simp_all add: advances_def)
  have "work_left m1 = sum_list (?w[k := weight s])"
    by (simp add: work_left_def p map_update)
  also have "\<dots> = sum_list ?w + weight s - ?w ! k"
    using k by (simp add: sum_list_update)
  finally have eq: "work_left m1 = sum_list ?w + weight s - weight (state_of m k)"
    using k by (simp add: state_of_def)
  have "?w ! k \<le> sum_list ?w" using k by (intro elem_le_sum_list) simp
  then have le: "weight (state_of m k) \<le> sum_list ?w"
    using k by (simp add: state_of_def)
  from legal_facts(3) [OF l] le eq show ?thesis
    by (simp add: work_left_def)
qed

lemma jobs_step:
  assumes "step e m = Some m1"
  shows "jobs m1 = jobs m + length (submitted [e])"
proof (cases "internal e")
  case True
  from step_advances [OF assms True] obtain k s es where "advances m k s es m1" by blast
  then have "jobs m1 = jobs m" by (simp add: advances_def)
  moreover from True have "submitted [e] = []"
    by (cases e) (simp_all add: submitted_def internal_def)
  ultimately show ?thesis by simp
next
  case False
  then obtain bs where e: "e = Enqueue bs"
    by (cases e) (simp_all add: internal_def)
  with assms have "m1 = enqueue bs m" by (simp add: step_def)
  with e show ?thesis by (simp add: enqueue_view(2) submitted_def)
qed

lemma jobs_run:
  assumes "run es m = Some m1"
  shows "jobs m1 = jobs m + length (submitted es)"
  using assms
proof (induction es arbitrary: m)
  case Nil
  then show ?case by (simp add: submitted_def)
next
  case (Cons e es)
  from Cons.prems obtain m2 where s: "step e m = Some m2" and r: "run es m2 = Some m1"
    by (auto split: option.splits)
  from Cons.IH [OF r] jobs_step [OF s] show ?case
    by (simp add: submitted_def)
qed

text \<open>
  Claim C3.  In every state the machine reaches from the start, by any sequence of events:
  at most one promise is running, so no two writes overlap; the number of calls is the number
  of saves submitted, each numbered in the order of submission; the journal is in the order of
  the calls, and the commits are in strictly increasing order of their calls, so each save is
  committed at most once and in the order the saves were enqueued; when no event but a new call
  is possible any more, \<open>fn\<close> of every call was begun, whatever failed before it; and that
  point is reached, since every such event makes the work left smaller.
\<close>

theorem writes_one_at_a_time:
  assumes "run es (machine0 f) = Some m"
  shows "(\<forall>i<length (promises m). \<forall>j<length (promises m).
            running (state_of m i) \<and> running (state_of m j) \<longrightarrow> i = j)
    \<and> jobs m = length (submitted es)
    \<and> sorted (map entry_job (journal m))
    \<and> sorted_wrt (<) (commits (journal m))
    \<and> ((\<forall>e. internal e \<longrightarrow> step e m = None) \<longrightarrow> (\<forall>j<jobs m. Began j \<in> set (journal m)))
    \<and> (\<forall>e m1. internal e \<and> step e m = Some m1 \<longrightarrow> work_left m1 < work_left m)"
proof -
  from chain_ok_run [OF assms chain_ok_machine0] have c: "chain_ok m" .
  then have io: "in_order m" and jo: "journal_ok m" by (simp_all add: chain_ok_def)
  have excl: "\<forall>i<length (promises m). \<forall>j<length (promises m).
            running (state_of m i) \<and> running (state_of m j) \<longrightarrow> i = j"
    using one_running [OF io] by blast
  have n: "jobs m = length (submitted es)"
    using jobs_run [OF assms] by (simp add: machine0_def)
  from jo have order: "sorted (map entry_job (journal m))"
    "sorted_wrt (<) (commits (journal m))"
    by (simp_all add: journal_ok_def)
  have live: "(\<forall>e. internal e \<longrightarrow> step e m = None) \<longrightarrow> (\<forall>j<jobs m. Began j \<in> set (journal m))"
    using all_begun [OF c] by blast
  have "work_left m1 < work_left m" if "internal e \<and> step e m = Some m1" for e m1
  proof -
    from that step_advances [of e m m1] obtain k s es where
      "advances m k s es m1" "legal m k s es" by blast
    then show ?thesis by (rule work_left_advances)
  qed
  then have dec: "\<forall>e m1. internal e \<and> step e m = Some m1 \<longrightarrow> work_left m1 < work_left m"
    by blast
  from excl n order live dec show ?thesis by blast
qed

theorem writes_one_at_a_time_witness:
  "\<exists>m. run [Enqueue [], Enqueue SAMPLE_BOOKS,
             Settle 1, WriteFileDone 1 (Some EIO), Settle 2, WriteFileDone 2 (Some EIO),
             Settle 3, Settle 4, WriteFileDone 4 None, RenameDone 4 None]
          (machine0 None) = Some m
     \<and> journal m = [Began 0, Began 0, Began 1, Committed 1]
     \<and> disk m = Some (Json (Books SAMPLE_BOOKS))
     \<and> jobs m = 2
     \<and> sorted (map entry_job (journal m))
     \<and> sorted_wrt (<) (commits (journal m))
     \<and> (\<forall>j<jobs m. Began j \<in> set (journal m))"
proof -
  let ?es = "[Enqueue [], Enqueue SAMPLE_BOOKS,
             Settle 1, WriteFileDone 1 (Some EIO), Settle 2, WriteFileDone 2 (Some EIO),
             Settle 3, Settle 4, WriteFileDone 4 None, RenameDone 4 None]"
  have "\<exists>m. run ?es (machine0 None) = Some m
      \<and> journal m = [Began 0, Began 0, Began 1, Committed 1]
      \<and> disk m = Some (Json (Books SAMPLE_BOOKS))
      \<and> list_all (\<lambda>p. settled (pstate p)) (promises m)"
    by (simp add: step_def enqueue_def settle_def call_fn_def set_state_def state_of_def
        writeFile_done_def rename_done_def machine0_def settled_def JSON_stringify_def Let_def)
  then obtain m where m: "run ?es (machine0 None) = Some m"
      "journal m = [Began 0, Began 0, Began 1, Committed 1]"
      "disk m = Some (Json (Books SAMPLE_BOOKS))"
      "list_all (\<lambda>p. settled (pstate p)) (promises m)"
    by blast
  from m(4) have q: "\<forall>e. internal e \<longrightarrow> step e m = None"
    using settled_quiescent by blast
  from writes_one_at_a_time [OF m(1)] q
  have "jobs m = length (submitted ?es)" "sorted (map entry_job (journal m))"
    "sorted_wrt (<) (commits (journal m))" "\<forall>j<jobs m. Began j \<in> set (journal m)"
    by blast+
  moreover have "length (submitted ?es) = 2" by (simp add: submitted_def)
  ultimately show ?thesis using m(1,2,3) by auto
qed

subsection \<open>A save of the store is a run of the machine\<close>

lemma enqueue_grown: "enqueue books m = grown m books Pending Pending (disk m) (tmp m) []"
  by (simp add: enqueue_def grown_def Let_def)

lemma grown_first [simp]:
  "promises (grown m books s1 s2 d t J) ! length (promises m)
     = \<lparr>origin = ThenOf (queue m), job = jobs m, closure_books = books, pstate = s1\<rparr>"
  "state_of (grown m books s1 s2 d t J) (length (promises m)) = s1"
  by (simp_all add: grown_def state_of_def)

lemma grown_second [simp]:
  "promises (grown m books s1 s2 d t J) ! Suc (length (promises m))
     = \<lparr>origin = CatchOf (length (promises m)), job = jobs m, closure_books = books,
        pstate = s2\<rparr>"
  "state_of (grown m books s1 s2 d t J) (Suc (length (promises m))) = s2"
  by (simp_all add: grown_def state_of_def nth_append)

lemma grown_old [simp]:
  "i < length (promises m) \<Longrightarrow> state_of (grown m books s1 s2 d t J) i = state_of m i"
  by (simp add: grown_def state_of_def nth_append)

lemma grown_fields [simp]:
  "length (promises (grown m books s1 s2 d t J)) = Suc (Suc (length (promises m)))"
  "disk (grown m books s1 s2 d t J) = d" "tmp (grown m books s1 s2 d t J) = t"
  "journal (grown m books s1 s2 d t J) = journal m @ J"
  "queue (grown m books s1 s2 d t J) = Suc (length (promises m))"
  by (simp_all add: grown_def)

lemma grown_set_first:
  "set_state (length (promises m)) s (grown m books s1 s2 d t J) = grown m books s s2 d t J"
  by (simp add: set_state_def grown_def)

lemma grown_set_second:
  "set_state (Suc (length (promises m))) s (grown m books s1 s2 d t J)
     = grown m books s1 s d t J"
  by (simp add: set_state_def grown_def list_update_append nth_append)

lemma grown_upd:
  "(grown m books s1 s2 d t J)\<lparr>journal := journal m @ J'\<rparr> = grown m books s1 s2 d t J'"
  "(grown m books s1 s2 d t J)\<lparr>tmp := t'\<rparr> = grown m books s1 s2 d t' J"
  "(grown m books s1 s2 d t J)\<lparr>disk := d'\<rparr> = grown m books s1 s2 d' t J"
  by (simp_all add: grown_def)

lemma settle_first:
  assumes "queue m < length (promises m)"
  shows "settle (length (promises m)) (grown m books Pending s2 d t J) =
    (case state_of m (queue m) of
       Fulfilled \<Rightarrow> Some (grown m books (Running Writing) s2 d t (J @ [Began (jobs m)]))
     | Rejected \<Rightarrow> Some (grown m books Rejected s2 d t J)
     | _ \<Rightarrow> None)"
  using assms
  by (simp add: settle_def call_fn_def grown_set_first grown_upd split: pstate.splits)

lemma settle_second:
  "settle (Suc (length (promises m))) (grown m books s1 Pending d t J) =
    (case s1 of
       Fulfilled \<Rightarrow> Some (grown m books s1 Fulfilled d t J)
     | Rejected \<Rightarrow> Some (grown m books s1 (Running Writing) d t (J @ [Began (jobs m)]))
     | _ \<Rightarrow> None)"
  by (simp add: settle_def call_fn_def grown_set_second grown_upd split: pstate.splits)

lemma writeFile_done_first:
  "writeFile_done (length (promises m)) r (grown m books (Running Writing) s2 d t J) =
    Some (case r of
            None \<Rightarrow> grown m books (Running Renaming) s2 d (Some (JSON_stringify books)) J
          | Some c \<Rightarrow> grown m books Rejected s2 d t J)"
  by (simp add: writeFile_done_def grown_set_first grown_upd split: option.splits)

lemma writeFile_done_second:
  "writeFile_done (Suc (length (promises m))) r (grown m books s1 (Running Writing) d t J) =
    Some (case r of
            None \<Rightarrow> grown m books s1 (Running Renaming) d (Some (JSON_stringify books)) J
          | Some c \<Rightarrow> grown m books s1 Rejected d t J)"
  by (simp add: writeFile_done_def grown_set_second grown_upd split: option.splits)

lemma rename_done_first:
  "rename_done (length (promises m)) r (grown m books (Running Renaming) s2 d (Some x) J) =
    Some (case r of
            None \<Rightarrow> grown m books Fulfilled s2 (Some x) None (J @ [Committed (jobs m)])
          | Some c \<Rightarrow> grown m books Rejected s2 d (Some x) J)"
  by (simp add: rename_done_def grown_set_first grown_upd split: option.splits)

lemma rename_done_second:
  "rename_done (Suc (length (promises m))) r (grown m books s1 (Running Renaming) d (Some x) J) =
    Some (case r of
            None \<Rightarrow> grown m books s1 Fulfilled (Some x) None (J @ [Committed (jobs m)])
          | Some c \<Rightarrow> grown m books s1 Rejected d (Some x) J)"
  by (simp add: rename_done_def grown_set_second grown_upd split: option.splits)

lemma io_cases:
  obtains (none) "rs = []"
    | (fail) c rs1 where "rs = Some c # rs1"
    | (ok_last) "rs = [None]"
    | (ok_fail) c rs2 where "rs = None # Some c # rs2"
    | (ok_ok) rs2 where "rs = None # None # rs2"
proof (cases rs)
  case Nil
  then show ?thesis by (rule none)
next
  case (Cons r rs1)
  show ?thesis
  proof (cases r)
    case (Some c)
    with Cons show ?thesis by (intro fail) simp
  next
    case None
    show ?thesis
    proof (cases rs1)
      case Nil
      with Cons None show ?thesis by (intro ok_last) simp
    next
      case (Cons r2 rs2)
      with \<open>rs = r # rs1\<close> None show ?thesis
        by (cases r2) (auto intro: ok_fail ok_ok)
    qed
  qed
qed

lemmas task_defs =
  write_task_def fs_writeFile_def fs_rename_def fs_attempt_def fn_events_def step_def
  JSON_stringify_def Let_def

lemma fn_run_first:
  assumes "books_file w = d" and "tmp_file w = t"
  shows "run (fst (fn_events (length (promises m)) (io w)))
            (grown m books (Running Writing) s2 d t J)
      = Some (grown m books (if fst (write_task books w) = Inr () then Fulfilled else Rejected) s2
                (books_file (snd (write_task books w))) (tmp_file (snd (write_task books w)))
                (J @ (if fst (write_task books w) = Inr () then [Committed (jobs m)] else [])))
    \<and> io (snd (write_task books w)) = fst (snd (fn_events (length (promises m)) (io w)))
    \<and> snd (snd (fn_events (length (promises m)) (io w))) = (fst (write_task books w) = Inr ())
    \<and> writeQueue (snd (write_task books w)) = writeQueue w"
  using assms
  by (cases "io w" rule: io_cases)
     (simp_all add: task_defs writeFile_done_first rename_done_first)

lemma fn_run_second:
  assumes "books_file w = d" and "tmp_file w = t"
  shows "run (fst (fn_events (Suc (length (promises m))) (io w)))
            (grown m books s1 (Running Writing) d t J)
      = Some (grown m books s1 (if fst (write_task books w) = Inr () then Fulfilled else Rejected)
                (books_file (snd (write_task books w))) (tmp_file (snd (write_task books w)))
                (J @ (if fst (write_task books w) = Inr () then [Committed (jobs m)] else [])))
    \<and> io (snd (write_task books w)) = fst (snd (fn_events (Suc (length (promises m))) (io w)))
    \<and> snd (snd (fn_events (Suc (length (promises m))) (io w)))
        = (fst (write_task books w) = Inr ())
    \<and> writeQueue (snd (write_task books w)) = writeQueue w"
  using assms
  by (cases "io w" rule: io_cases)
     (simp_all add: task_defs writeFile_done_second rename_done_second)

lemma run_append:
  "run (es1 @ es2) m = (case run es1 m of None \<Rightarrow> None | Some m1 \<Rightarrow> run es2 m1)"
  by (induction es1 arbitrary: m) (auto split: option.splits)

lemma quiet_grown:
  assumes "quiet m" and "settled s1" and "settled s2"
  shows "quiet (grown m books s1 s2 d t J)"
  using assms by (simp add: quiet_def grown_def)

lemma matches_grown:
  assumes "quiet m" and "settled s1" and "settled s2"
    and "books_file w1 = d" and "tmp_file w1 = t"
    and "(s2 = Fulfilled) = (writeQueue w1 = Inr ())"
  shows "matches (grown m books s1 s2 d t J) w1"
  using assms quiet_grown [OF assms(1,2,3)]
  by (simp add: matches_def)

lemma writeBooksFile_unfold:
  "writeBooksFile books w =
    (case writeQueue w of
       Inr u \<Rightarrow>
         (if fst (write_task books w) = Inr () then
            (Inr (), (snd (write_task books w))\<lparr>writeQueue := Inr ()\<rparr>)
          else (fst (write_task books (snd (write_task books w))),
                (snd (write_task books (snd (write_task books w))))
                  \<lparr>writeQueue := fst (write_task books (snd (write_task books w)))\<rparr>))
     | Inl e \<Rightarrow>
         (fst (write_task books w),
          (snd (write_task books w))\<lparr>writeQueue := fst (write_task books w)\<rparr>))"
proof (cases "writeQueue w")
  case (Inl e)
  then show ?thesis
    by (cases "write_task books w") (simp add: writeBooksFile_def enqueueWrite_def)
next
  case (Inr u)
  obtain r1 w1 where t1: "write_task books w = (r1, w1)" by (cases "write_task books w")
  obtain r2 w2 where t2: "write_task books w1 = (r2, w2)" by (cases "write_task books w1")
  show ?thesis
    using Inr t1 t2
    by (cases r1) (simp_all add: writeBooksFile_def enqueueWrite_def)
qed

lemma matches_start: "matches (machine0 f) (start f rs)"
  by (simp add: matches_def quiet_def machine0_def start_def state_of_def settled_def)

text \<open>
  Whatever the queue holds and whatever the file-system calls answer, \<^verbatim>\<open>writeBooksFile\<close> of the
  store ends in the state in which the machine ends after the events of that save, with the
  same result.
\<close>

lemma sequential_save_is_a_run:
  assumes "matches m w"
  shows "\<exists>m1. run (save_events m books (io w)) m = Some m1
    \<and> matches m1 (snd (writeBooksFile books w))
    \<and> (state_of m1 (queue m1) = Fulfilled) = (fst (writeBooksFile books w) = Inr ())"
proof -
  let ?n = "length (promises m)"
  from assms have qm: "quiet m" and q: "queue m < ?n"
    and f: "books_file w = disk m" "tmp_file w = tmp m"
    and st: "(state_of m (queue m) = Fulfilled) = (writeQueue w = Inr ())"
    by (simp_all add: matches_def)
  from qm q have sq: "settled (state_of m (queue m))"
    by (simp add: quiet_def list_all_length state_of_def)
  let ?r1 = "fst (write_task books w)" and ?w1 = "snd (write_task books w)"
  let ?r2 = "fst (write_task books ?w1)" and ?w2 = "snd (write_task books ?w1)"
  show ?thesis
  proof (cases "state_of m (queue m) = Fulfilled")
    case True
    with st have wq: "writeQueue w = Inr ()" by simp
    let ?J0 = "[Began (jobs m)]"
    let ?s1 = "if ?r1 = Inr () then Fulfilled else Rejected"
    let ?J1 = "?J0 @ (if ?r1 = Inr () then [Committed (jobs m)] else [])"
    let ?m1 = "grown m books ?s1 Pending (books_file ?w1) (tmp_file ?w1) ?J1"
    note first = fn_run_first [OF f, of m books Pending ?J0]
    have a: "run (Enqueue books # Settle ?n # fst (fn_events ?n (io w))) m = Some ?m1"
      using True q first
      by (simp add: step_def enqueue_grown settle_first)
    show ?thesis
    proof (cases "?r1 = Inr ()")
      case ok: True
      let ?m2 = "grown m books Fulfilled Fulfilled (books_file ?w1) (tmp_file ?w1) ?J1"
      have ev: "save_events m books (io w)
          = (Enqueue books # Settle ?n # fst (fn_events ?n (io w))) @ [Settle (Suc ?n)]"
        using True first ok by (simp add: save_events_def Let_def)
      have r: "run (save_events m books (io w)) m = Some ?m2"
        using ok by (simp only: ev run_append a) (simp add: step_def settle_second)
      have w: "writeBooksFile books w = (Inr (), ?w1\<lparr>writeQueue := Inr ()\<rparr>)"
        using wq ok by (simp add: writeBooksFile_unfold)
      have "matches ?m2 (snd (writeBooksFile books w))"
        unfolding w using qm by (intro matches_grown) (simp_all add: settled_def)
      with r w show ?thesis by simp
    next
      case failed: False
      let ?s2 = "if ?r2 = Inr () then Fulfilled else Rejected"
      let ?J2 = "(?J0 @ [Began (jobs m)]) @ (if ?r2 = Inr () then [Committed (jobs m)] else [])"
      let ?m2 = "grown m books Rejected ?s2 (books_file ?w2) (tmp_file ?w2) ?J2"
      note second = fn_run_second [of ?w1 "books_file ?w1" "tmp_file ?w1" m books Rejected
          "?J0 @ [Began (jobs m)]"]
      have rest: "io ?w1 = fst (snd (fn_events ?n (io w)))"
        using first by simp
      have ev: "save_events m books (io w)
          = (Enqueue books # Settle ?n # fst (fn_events ?n (io w)))
            @ (Settle (Suc ?n) # fst (fn_events (Suc ?n) (io ?w1)))"
        using True first failed rest
        by (simp add: save_events_def Let_def)
      have r: "run (save_events m books (io w)) m = Some ?m2"
        using failed second
        by (simp only: ev run_append a) (simp add: step_def settle_second)
      have w: "writeBooksFile books w = (?r2, ?w2\<lparr>writeQueue := ?r2\<rparr>)"
        using wq failed by (simp add: writeBooksFile_unfold)
      have "matches ?m2 (snd (writeBooksFile books w))"
        unfolding w using qm by (intro matches_grown) (auto simp: settled_def)
      with r w show ?thesis by simp
    qed
  next
    case False
    with sq have rej: "state_of m (queue m) = Rejected" by (simp add: settled_def)
    from False st obtain e where wq: "writeQueue w = Inl e"
      by (cases "writeQueue w") auto
    let ?s2 = "if ?r1 = Inr () then Fulfilled else Rejected"
    let ?J2 = "[Began (jobs m)] @ (if ?r1 = Inr () then [Committed (jobs m)] else [])"
    let ?m2 = "grown m books Rejected ?s2 (books_file ?w1) (tmp_file ?w1) ?J2"
    note second = fn_run_second [OF f, of m books Rejected "[Began (jobs m)]"]
    have ev: "save_events m books (io w)
        = Enqueue books # Settle ?n # Settle (Suc ?n) # fst (fn_events (Suc ?n) (io w))"
      using False by (simp add: save_events_def Let_def)
    have r: "run (save_events m books (io w)) m = Some ?m2"
      using rej q second
      by (simp add: ev step_def enqueue_grown settle_first settle_second)
    have w: "writeBooksFile books w = (?r1, ?w1\<lparr>writeQueue := ?r1\<rparr>)"
      using wq by (simp add: writeBooksFile_unfold)
    have "matches ?m2 (snd (writeBooksFile books w))"
      unfolding w using qm by (intro matches_grown) (auto simp: settled_def)
    with r w show ?thesis by simp
  qed
qed

end
